theory Spec2Isabelle
  imports Complex_Main "HOL-Library.AList"
begin

section \<open>Scalars and machine integers\<close>

text \<open>
  The engine computes on C++ \<open>float\<close> samples. The embedding reads every \<open>float\<close> and
  \<open>double\<close> as a \<^typ>\<open>real\<close> (rounding is not modelled), every \<open>int\<close> as an \<^typ>\<open>int\<close>
  and every \<open>uint32_t\<close>/\<open>size_t\<close> as a \<^typ>\<open>nat\<close>; the narrowing casts of the source
  are written out as reductions modulo \<open>2 ^ 32\<close>.
\<close>

definition to_int32 :: "int \<Rightarrow> int" where
  \<comment> \<open>\<open>(int) v\<close> and \<open>get<int>()\<close>: two's-complement wrap into 32 bits\<close>
  "to_int32 v = (v + 2 ^ 31) mod 2 ^ 32 - 2 ^ 31"

definition to_uint32 :: "int \<Rightarrow> nat" where
  \<comment> \<open>\<open>(uint32_t) v\<close>\<close>
  "to_uint32 v = nat (v mod 2 ^ 32)"

definition dbToLin :: "real \<Rightarrow> real" where
  \<comment> \<open>\<open>std::pow(10.0f, db / 20.0f)\<close>\<close>
  "dbToLin db = 10 powr (db / 20)"

definition clampf :: "real \<Rightarrow> real \<Rightarrow> real \<Rightarrow> real" where
  "clampf v lo hi = (if v < lo then lo else if v > hi then hi else v)"

definition softclipFast :: "real \<Rightarrow> real" where
  "softclipFast x =
     (if x > 1 then 1
      else if x < - 1 then - 1
      else (let b = 0.3333333 in x - b * x * x * x))"

section \<open>JSON values\<close>

text \<open>
  The values of the JSON library the engine uses. An integer literal is one constructor
  (the library's signed and unsigned integers both answer \<open>is_number_integer\<close>); an
  object is an association list read through \<open>map_of\<close>.
\<close>

datatype Json =
    JNull
  | JBool bool
  | JInt int
  | JFloat real
  | JString string
  | JArray "Json list"
  | JObject "(string \<times> Json) list"

fun is_object :: "Json \<Rightarrow> bool" where
  "is_object (JObject kv) = True"
| "is_object j = False"

fun is_array :: "Json \<Rightarrow> bool" where
  "is_array (JArray xs) = True"
| "is_array j = False"

fun is_string :: "Json \<Rightarrow> bool" where
  "is_string (JString s) = True"
| "is_string j = False"

fun is_boolean :: "Json \<Rightarrow> bool" where
  "is_boolean (JBool b) = True"
| "is_boolean j = False"

fun is_number_integer :: "Json \<Rightarrow> bool" where
  "is_number_integer (JInt i) = True"
| "is_number_integer j = False"

fun is_number :: "Json \<Rightarrow> bool" where
  "is_number (JInt i) = True"
| "is_number (JFloat r) = True"
| "is_number j = False"

fun jget :: "Json \<Rightarrow> string \<Rightarrow> Json option" where
  \<comment> \<open>\<open>j.contains(key)\<close> together with \<open>j[key]\<close>: \<open>None\<close> when \<open>j\<close> is no object or lacks the key\<close>
  "jget (JObject kv) k = map_of kv k"
| "jget j k = None"

definition contains :: "Json \<Rightarrow> string \<Rightarrow> bool" where
  "contains j k = (jget j k \<noteq> None)"

fun get_int :: "Json \<Rightarrow> int" where
  \<comment> \<open>\<open>get<int>()\<close> of an integer value\<close>
  "get_int (JInt i) = to_int32 i"
| "get_int j = 0"

fun get_double :: "Json \<Rightarrow> real" where
  \<comment> \<open>\<open>get<double>()\<close> of a number\<close>
  "get_double (JInt i) = real_of_int i"
| "get_double (JFloat r) = r"
| "get_double j = 0"

fun jset :: "Json \<Rightarrow> string \<Rightarrow> Json \<Rightarrow> Json" where
  \<comment> \<open>\<open>j[key] = v\<close> on a mutable value: a null becomes an object\<close>
  "jset (JObject kv) k v = JObject (AList.update k v kv)"
| "jset j k v = JObject [(k, v)]"

section \<open>Chain schema (signal\_chain\_schema)\<close>

record AssetRef =
  path :: string

record NodeSpec =
  node_id :: string
  node_type :: string
  category :: string
  enabled :: bool
  params :: Json
  asset :: "AssetRef option"

record ChainSpec =
  version :: int
  sampleRate :: nat
  chain :: "NodeSpec list"

subsection \<open>Parsing\<close>

text \<open>
  A parser of the source returns \<open>std::optional\<close> and leaves its message in a
  \<open>ValidationError\<close> passed by reference. Here it returns \<open>Inl message\<close> or \<open>Inr value\<close>.
\<close>

definition apos :: char where
  \<comment> \<open>the single quote of the messages\<close>
  "apos = CHR 0x27"

definition getString :: "Json \<Rightarrow> string \<Rightarrow> string + string option" where
  \<comment> \<open>\<open>Inr None\<close>: the key is absent; \<open>Inl\<close>: it is present and no string\<close>
  "getString j key =
     (case jget j key of
        None \<Rightarrow> Inr None
      | Some (JString s) \<Rightarrow> Inr (Some s)
      | Some _ \<Rightarrow> Inl (''Field '' @ apos # key @ apos # '' must be a string''))"

definition isBuiltinType :: "string \<Rightarrow> bool" where
  "isBuiltinType t = (t = ''input'' \<or> t = ''output'')"

definition NodeSpec_default :: NodeSpec where
  \<comment> \<open>the member initialisers of \<open>struct NodeSpec\<close>\<close>
  "NodeSpec_default =
     \<lparr>node_id = [], node_type = [], category = [], enabled = True,
      params = JObject [], asset = None\<rparr>"

definition parseNode_asset :: "Json \<Rightarrow> NodeSpec \<Rightarrow> string + NodeSpec" where
  "parseNode_asset jn n =
     (case jget jn ''asset'' of
        None \<Rightarrow> Inr n
      | Some a \<Rightarrow>
          if \<not> is_object a then Inl ''Node field \039asset\039 must be an object''
          else (case jget a ''path'' of
                  Some (JString p) \<Rightarrow> Inr (n\<lparr>asset := Some \<lparr>path = p\<rparr>\<rparr>)
                | _ \<Rightarrow> Inl (''Node asset requires string field \039path'' @ [apos])))"

definition parseNode_params :: "Json \<Rightarrow> NodeSpec \<Rightarrow> string + NodeSpec" where
  "parseNode_params jn n =
     (case jget jn ''params'' of
        None \<Rightarrow> parseNode_asset jn n
      | Some p \<Rightarrow>
          if \<not> is_object p then Inl ''Node field \039params\039 must be an object''
          else parseNode_asset jn (n\<lparr>params := p\<rparr>))"

definition parseNode_enabled :: "Json \<Rightarrow> NodeSpec \<Rightarrow> string + NodeSpec" where
  "parseNode_enabled jn n =
     (case jget jn ''enabled'' of
        None \<Rightarrow> parseNode_params jn n
      | Some (JBool b) \<Rightarrow> parseNode_params jn (n\<lparr>enabled := b\<rparr>)
      | Some _ \<Rightarrow> Inl ''Node field \039enabled\039 must be a boolean'')"

definition parseNode_category :: "Json \<Rightarrow> NodeSpec \<Rightarrow> string + NodeSpec" where
  "parseNode_category jn n =
     (case jget jn ''category'' of
        None \<Rightarrow> parseNode_enabled jn n
      | Some (JString c) \<Rightarrow> parseNode_enabled jn (n\<lparr>category := c\<rparr>)
      | Some _ \<Rightarrow> Inl ''Node field \039category\039 must be a string'')"

definition parseNode :: "Json \<Rightarrow> string + NodeSpec" where
  "parseNode jn =
     (if \<not> is_object jn then Inl ''Each chain element must be an object''
      else (case getString jn ''id'' of
              Inr (Some i) \<Rightarrow>
                (case getString jn ''type'' of
                   Inr (Some t) \<Rightarrow>
                     parseNode_category jn (NodeSpec_default\<lparr>node_id := i, node_type := t\<rparr>)
                 | _ \<Rightarrow> Inl (''Node missing required string field \039type'' @ [apos]))
            | _ \<Rightarrow> Inl (''Node missing required string field \039id'' @ [apos])))"

fun parseNodes :: "Json list \<Rightarrow> NodeSpec list \<Rightarrow> string + NodeSpec list" where
  \<comment> \<open>the loop \<open>for (const auto &jn : j["chain"])\<close>, with the nodes pushed so far\<close>
  "parseNodes [] acc = Inr acc"
| "parseNodes (jn # jns) acc =
     (case parseNode jn of
        Inl e \<Rightarrow> Inl e
      | Inr n \<Rightarrow> parseNodes jns (acc @ [n]))"

definition ChainSpec_default :: ChainSpec where
  "ChainSpec_default = \<lparr>version = 1, sampleRate = 48000, chain = []\<rparr>"

definition parseCanonicalV1_chain :: "Json \<Rightarrow> ChainSpec \<Rightarrow> string + ChainSpec" where
  "parseCanonicalV1_chain j spec =
     (case jget j ''chain'' of
        Some (JArray jns) \<Rightarrow>
          (case parseNodes jns (chain spec) of
             Inl e \<Rightarrow> Inl e
           | Inr ns \<Rightarrow> Inr (spec\<lparr>chain := ns\<rparr>))
      | _ \<Rightarrow> Inl ''Missing/invalid \039chain\039 (must be array)'')"

definition parseCanonicalV1 :: "Json \<Rightarrow> string + ChainSpec" where
  "parseCanonicalV1 j =
     (case jget j ''version'' of
        Some (JInt v) \<Rightarrow>
          (let spec = ChainSpec_default\<lparr>version := to_int32 v\<rparr> in
           if version spec \<noteq> 1 then Inl ''Unsupported chain version''
           else (case jget j ''sampleRate'' of
                   None \<Rightarrow> parseCanonicalV1_chain j spec
                 | Some (JInt r) \<Rightarrow>
                     (let sr = to_int32 r in
                      if sr \<le> 0 then Inl (apos # ''sampleRate\039 must be > 0'')
                      else parseCanonicalV1_chain j (spec\<lparr>sampleRate := to_uint32 sr\<rparr>))
                 | Some _ \<Rightarrow> Inl (apos # ''sampleRate\039 must be integer'')))
      | _ \<Rightarrow> Inl ''Missing/invalid \039version\039 (must be integer)'')"

definition legacy_sampleRate :: "Json \<Rightarrow> ChainSpec \<Rightarrow> ChainSpec" where
  "legacy_sampleRate j spec =
     (case jget j ''audio'' of
        Some a \<Rightarrow>
          (if is_object a then
             (case jget a ''sampleRate'' of
                Some (JInt r) \<Rightarrow> spec\<lparr>sampleRate := to_uint32 (to_int32 r)\<rparr>
              | _ \<Rightarrow> spec)
           else spec)
      | None \<Rightarrow> spec)"

definition legacy_input :: "Json \<Rightarrow> string + NodeSpec" where
  "legacy_input j =
     (let input = \<lparr>node_id = ''input'', node_type = ''input'', category = ''utility'',
                   enabled = True, params = JObject [], asset = None\<rparr> in
      case jget j ''audio'' of
        Some a \<Rightarrow>
          (if is_object a then
             (case jget a ''inputTrimDb'' of
                None \<Rightarrow> Inr input
              | Some t \<Rightarrow>
                  if \<not> is_number t then Inl ''legacy audio.inputTrimDb must be number''
                  else Inr (input\<lparr>params := jset (params input) ''inputTrimDb'' t\<rparr>))
           else Inr input)
      | None \<Rightarrow> Inr input)"

definition legacy_asset :: "Json \<Rightarrow> string \<Rightarrow> string \<Rightarrow> NodeSpec \<Rightarrow> string + NodeSpec" where
  \<comment> \<open>the two blocks that read \<open>chain.namModelPath\<close> and \<open>chain.irPath\<close>\<close>
  "legacy_asset j key msg n =
     (case jget j ''chain'' of
        Some c \<Rightarrow>
          (if is_object c then
             (case jget c key of
                None \<Rightarrow> Inr n
              | Some (JString p) \<Rightarrow> Inr (n\<lparr>asset := Some \<lparr>path = p\<rparr>\<rparr>)
              | Some _ \<Rightarrow> Inl msg)
           else Inr n)
      | None \<Rightarrow> Inr n)"

definition parseLegacy :: "Json \<Rightarrow> string + ChainSpec" where
  "parseLegacy j =
     (let spec = legacy_sampleRate j (ChainSpec_default\<lparr>version := 1\<rparr>) in
      case legacy_input j of
        Inl e \<Rightarrow> Inl e
      | Inr input \<Rightarrow>
          (let amp = \<lparr>node_id = ''amp1'', node_type = ''nam_model'', category = ''amp'',
                      enabled = True, params = JObject [], asset = None\<rparr>;
               cab = \<lparr>node_id = ''cab1'', node_type = ''ir_convolver'', category = ''cab'',
                      enabled = True, params = JObject [], asset = None\<rparr> in
           case legacy_asset j ''namModelPath'' ''legacy chain.namModelPath must be string'' amp of
             Inl e \<Rightarrow> Inl e
           | Inr amp' \<Rightarrow>
               (case legacy_asset j ''irPath'' ''legacy chain.irPath must be string'' cab of
                  Inl e \<Rightarrow> Inl e
                | Inr cab' \<Rightarrow>
                    (let output = \<lparr>node_id = ''output'', node_type = ''output'',
                                    category = ''utility'', enabled = True,
                                    params = JObject [], asset = None\<rparr> in
                     Inr (spec\<lparr>chain := [input, amp', cab', output]\<rparr>)))))"

definition parseChainJson :: "Json \<Rightarrow> string + ChainSpec" where
  "parseChainJson j =
     (if \<not> is_object j then Inl ''Top-level JSON must be an object''
      else if contains j ''version'' \<and> contains j ''chain'' \<and>
              (case jget j ''chain'' of Some c \<Rightarrow> is_array c | None \<Rightarrow> False)
      then parseCanonicalV1 j
      else parseLegacy j)"

subsection \<open>Validation\<close>

fun hasType :: "NodeSpec list \<Rightarrow> string \<Rightarrow> bool" where
  "hasType [] t = False"
| "hasType (n # ns) t = (if node_type n = t then True else hasType ns t)"

fun check_ids :: "NodeSpec list \<Rightarrow> string set \<Rightarrow> string option" where
  \<comment> \<open>the loop over \<open>spec.chain\<close> with the \<open>unordered_set\<close> of ids seen; \<open>Some\<close> is the error\<close>
  "check_ids [] ids = None"
| "check_ids (n # ns) ids =
     (if node_id n = [] then Some ''Node id must be non-empty''
      else if node_id n \<in> ids then Some (''Duplicate node id: '' @ node_id n)
      else if node_type n = [] then Some ''Node type must be non-empty''
      else check_ids ns (insert (node_id n) ids))"

fun scan_idx :: "NodeSpec list \<Rightarrow> nat \<Rightarrow> int \<Rightarrow> int \<Rightarrow> int \<times> int" where
  \<comment> \<open>the loop that finds \<open>ampIdx\<close> and \<open>cabIdx\<close>, from index \<open>i\<close> on; \<open>(int) i\<close> is the cast\<close>
  "scan_idx [] i ampIdx cabIdx = (ampIdx, cabIdx)"
| "scan_idx (n # ns) i ampIdx cabIdx =
     (let ampIdx' = (if node_type n = ''nam_model'' \<and> ampIdx < 0 then to_int32 (int i) else ampIdx);
          cabIdx' = (if node_type n = ''ir_convolver'' \<and> cabIdx < 0 then to_int32 (int i) else cabIdx)
      in scan_idx ns (Suc i) ampIdx' cabIdx')"

definition pick_idx :: "int \<Rightarrow> nat \<Rightarrow> nat option \<Rightarrow> int" where
  \<comment> \<open>what the index scan holds after a segment: \<open>cur\<close> once set, else the first match\<close>
  "pick_idx cur i r = (if cur < 0 then (case r of None \<Rightarrow> cur | Some k \<Rightarrow> int (i + k)) else cur)"

definition validateChainSpec :: "ChainSpec \<Rightarrow> string + ChainSpec" where
  "validateChainSpec spec =
     (if version spec \<noteq> 1 then Inl ''Only chain version 1 is supported''
      else if length (chain spec) < 2 then Inl ''Chain must contain at least input and output''
      else (case check_ids (chain spec) {} of
              Some e \<Rightarrow> Inl e
            | None \<Rightarrow>
                if node_type (hd (chain spec)) \<noteq> ''input''
                then Inl (''First node must be type \039input'' @ [apos])
                else if node_type (last (chain spec)) \<noteq> ''output''
                then Inl (''Last node must be type \039output'' @ [apos])
                else if \<not> hasType (chain spec) ''nam_model''
                then Inl ''Chain must contain a \039nam_model\039 node''
                else if \<not> hasType (chain spec) ''ir_convolver''
                then Inl ''Chain must contain an \039ir_convolver\039 node''
                else (case scan_idx (chain spec) 0 (- 1) (- 1) of
                        (ampIdx, cabIdx) \<Rightarrow>
                          if ampIdx < 0 \<or> cabIdx < 0 \<or> ampIdx \<ge> cabIdx
                          then Inl (''Invalid ordering: \039nam_model\039 must appear before \039ir_convolver'' @ [apos])
                          else Inr spec)))"

definition nodeSpecToJson :: "NodeSpec \<Rightarrow> Json" where
  "nodeSpecToJson n =
     JObject ([(''id'', JString (node_id n)), (''type'', JString (node_type n))]
       @ (if category n \<noteq> [] then [(''category'', JString (category n))] else [])
       @ [(''enabled'', JBool (enabled n)),
          (''params'', if is_object (params n) then params n else JObject [])]
       @ (case asset n of
            Some a \<Rightarrow> [(''asset'', JObject [(''path'', JString (path a))])]
          | None \<Rightarrow> []))"

definition chainSpecToJson :: "ChainSpec \<Rightarrow> Json" where
  "chainSpecToJson spec =
     JObject [(''version'', JInt (version spec)),
              (''sampleRate'', JInt (int (sampleRate spec))),
              (''chain'', JArray (map nodeSpecToJson (chain spec)))]"

definition parse_and_validate :: "Json \<Rightarrow> string + ChainSpec" where
  \<comment> \<open>\<open>parseChainJson\<close> followed by \<open>validateChainSpec\<close>, as every caller composes them\<close>
  "parse_and_validate j =
     (case parseChainJson j of
        Inl e \<Rightarrow> Inl e
      | Inr spec \<Rightarrow> validateChainSpec spec)"

subsection \<open>The rejection conditions, stated on the JSON input\<close>

text \<open>
  The conditions under which a chain description is refused, written as predicates of
  the JSON value alone. They are compared with \<^const>\<open>parse_and_validate\<close> below.
\<close>

fun first_index :: "('a \<Rightarrow> bool) \<Rightarrow> 'a list \<Rightarrow> nat option" where
  "first_index P [] = None"
| "first_index P (x # xs) = (if P x then Some 0 else map_option Suc (first_index P xs))"

definition has_string :: "Json \<Rightarrow> string \<Rightarrow> bool" where
  "has_string j k = (case jget j k of Some (JString s) \<Rightarrow> True | _ \<Rightarrow> False)"

definition ill_typed :: "Json \<Rightarrow> string \<Rightarrow> (Json \<Rightarrow> bool) \<Rightarrow> bool" where
  \<comment> \<open>the key is present and its value fails the type test\<close>
  "ill_typed j k P = (case jget j k of Some v \<Rightarrow> \<not> P v | None \<Rightarrow> False)"

definition json_id :: "Json \<Rightarrow> string" where
  "json_id jn = (case jget jn ''id'' of Some (JString s) \<Rightarrow> s | _ \<Rightarrow> [])"

definition json_type :: "Json \<Rightarrow> string" where
  "json_type jn = (case jget jn ''type'' of Some (JString s) \<Rightarrow> s | _ \<Rightarrow> [])"

definition spec_node_malformed :: "Json \<Rightarrow> bool" where
  "spec_node_malformed jn \<longleftrightarrow>
     \<not> is_object jn
     \<or> \<not> has_string jn ''id''
     \<or> \<not> has_string jn ''type''
     \<or> ill_typed jn ''category'' is_string
     \<or> ill_typed jn ''enabled'' is_boolean
     \<or> ill_typed jn ''params'' is_object
     \<or> ill_typed jn ''asset'' (\<lambda>a. is_object a \<and> has_string a ''path'')"

definition spec_order_ok :: "string list \<Rightarrow> bool" where
  \<comment> \<open>first is input, last is output, the first amp comes before the first cab\<close>
  "spec_order_ok ts \<longleftrightarrow>
     ts \<noteq> [] \<and> hd ts = ''input'' \<and> last ts = ''output''
     \<and> (case (first_index (\<lambda>t. t = ''nam_model'') ts,
               first_index (\<lambda>t. t = ''ir_convolver'') ts) of
          (Some a, Some c) \<Rightarrow> a < c
        | _ \<Rightarrow> False)"

definition spec_canonical_rejects :: "Json \<Rightarrow> bool" where
  "spec_canonical_rejects j \<longleftrightarrow>
     (case jget j ''version'' of Some (JInt v) \<Rightarrow> to_int32 v \<noteq> 1 | _ \<Rightarrow> True)
     \<or> ill_typed j ''sampleRate'' (\<lambda>r. case r of JInt x \<Rightarrow> 0 < to_int32 x | _ \<Rightarrow> False)
     \<or> (case jget j ''chain'' of
           Some (JArray jns) \<Rightarrow>
             (\<exists>jn\<in>set jns. spec_node_malformed jn)
             \<or> length jns < 2
             \<or> (\<exists>jn\<in>set jns. json_id jn = [])
             \<or> \<not> distinct (map json_id jns)
             \<or> (\<exists>jn\<in>set jns. json_type jn = [])
             \<or> \<not> spec_order_ok (map json_type jns)
         | _ \<Rightarrow> True)"

definition spec_legacy_rejects :: "Json \<Rightarrow> bool" where
  "spec_legacy_rejects j \<longleftrightarrow>
     (case jget j ''audio'' of
        Some a \<Rightarrow> is_object a \<and> ill_typed a ''inputTrimDb'' is_number
      | None \<Rightarrow> False)
     \<or> (case jget j ''chain'' of
           Some c \<Rightarrow> is_object c \<and>
             (ill_typed c ''namModelPath'' is_string \<or> ill_typed c ''irPath'' is_string)
         | None \<Rightarrow> False)"

definition canonical_shape :: "Json \<Rightarrow> bool" where
  "canonical_shape j \<longleftrightarrow>
     contains j ''version'' \<and> (case jget j ''chain'' of Some c \<Rightarrow> is_array c | None \<Rightarrow> False)"

definition spec_rejects :: "Json \<Rightarrow> bool" where
  "spec_rejects j \<longleftrightarrow>
     \<not> is_object j
     \<or> (if canonical_shape j then spec_canonical_rejects j else spec_legacy_rejects j)"

definition chain_length :: "Json \<Rightarrow> nat" where
  \<comment> \<open>the number of elements of the \<open>chain\<close> array, 0 when there is none\<close>
  "chain_length j = (case jget j ''chain'' of Some (JArray jns) \<Rightarrow> length jns | _ \<Rightarrow> 0)"

section \<open>Buffers\<close>

text \<open>
  A \<open>float *\<close> argument is the list of the samples it points to. A loop that assigns
  \<open>dst[i]\<close> for \<open>lo \<le> i < hi\<close> is \<open>write_range\<close>; the other cells keep their value and
  the list keeps its length. The source gives no meaning to a write or a read beyond
  a buffer: the theorems below assume the buffers are long enough.
\<close>

definition write_range :: "'a list \<Rightarrow> nat \<Rightarrow> nat \<Rightarrow> (nat \<Rightarrow> 'a) \<Rightarrow> 'a list" where
  \<comment> \<open>\<open>for (i = lo; i < hi; i++) dst[i] = f(i);\<close>\<close>
  "write_range dst lo hi f = map (\<lambda>i. if lo \<le> i \<and> i < hi then f i else dst ! i) [0..<length dst]"

definition write_n :: "'a list \<Rightarrow> nat \<Rightarrow> (nat \<Rightarrow> 'a) \<Rightarrow> 'a list" where
  \<comment> \<open>\<open>for (i = 0; i < n; i++) dst[i] = f(i);\<close>\<close>
  "write_n dst n f = write_range dst 0 n f"

definition memcpy :: "'a list \<Rightarrow> 'a list \<Rightarrow> nat \<Rightarrow> 'a list" where
  \<comment> \<open>\<open>std::memcpy(dst, src, sizeof(float) * n)\<close>\<close>
  "memcpy dst src n = write_n dst n (\<lambda>i. src ! i)"

section \<open>The partitioned FFT convolver (fft\_convolver)\<close>

text \<open>
  Modelled from the spec: the forward and inverse transforms of the FFT library, which
  is not part of the repository. \<open>fftw_r2c\<close> is the unnormalised discrete Fourier
  transform of \<open>N\<close> real samples, of which the first \<open>N div 2 + 1\<close> bins are stored;
  \<open>fftw_c2r\<close> is the unnormalised inverse transform of the spectrum those bins stand for
  (bin \<open>N - b\<close> is the conjugate of bin \<open>b\<close>).
\<close>

definition fftw_r2c :: "nat \<Rightarrow> real list \<Rightarrow> complex list" where
  "fftw_r2c N x =
     map (\<lambda>b. \<Sum>n<N. complex_of_real (x ! n) * cis (- (2 * pi * real b * real n / real N)))
       [0..<N div 2 + 1]"

definition hermitian_bin :: "nat \<Rightarrow> complex list \<Rightarrow> nat \<Rightarrow> complex" where
  "hermitian_bin N Y b = (if 2 * b \<le> N then Y ! b else cnj (Y ! (N - b)))"

definition fftw_c2r :: "nat \<Rightarrow> complex list \<Rightarrow> real list" where
  "fftw_c2r N Y =
     map (\<lambda>n. Re (\<Sum>b<N. hermitian_bin N Y b * cis (2 * pi * real b * real n / real N)))
       [0..<N]"

record FFTConvolverPartitioned =
  mBlock :: int
  mFFT :: int
  mBins :: int
  mParts :: int
  mWrite :: int
  mReady :: bool
  mTimeIn :: "real list"
  mTimeOut :: "real list"
  mOverlap :: "real list"
  mFreqY :: "complex list"
  mH :: "complex list list"
  mX :: "complex list list"

definition cmul_acc :: "complex \<Rightarrow> complex \<Rightarrow> complex \<Rightarrow> complex" where
  \<comment> \<open>\<open>y += a * b\<close>, on real and imaginary parts\<close>
  "cmul_acc y a b =
     (let ar = Re a; ai = Im a; br = Re b; bi = Im b
      in Complex (Re y + (ar * br - ai * bi)) (Im y + (ar * bi + ai * br)))"

definition conv_clear :: FFTConvolverPartitioned where
  \<comment> \<open>the state \<open>clear()\<close> leaves, which is also the default-constructed one\<close>
  "conv_clear =
     \<lparr>mBlock = 0, mFFT = 0, mBins = 0, mParts = 0, mWrite = 0, mReady = False,
      mTimeIn = [], mTimeOut = [], mOverlap = [], mFreqY = [], mH = [], mX = []\<rparr>"

definition init_partition :: "real list \<Rightarrow> nat \<Rightarrow> FFTConvolverPartitioned \<Rightarrow> FFTConvolverPartitioned" where
  \<comment> \<open>one round of the loop that transforms partition \<open>k\<close> of the impulse response\<close>
  "init_partition ir k c =
     (let zeroed = replicate (length (mTimeIn c)) 0;
          start = k * nat (mBlock c);
          end = min (start + nat (mBlock c)) (length ir);
          tin = write_n zeroed (end - start) (\<lambda>i. ir ! (start + i));
          X0 = fftw_r2c (nat (mFFT c)) tin
      in c\<lparr>mTimeIn := tin, mX := (mX c)[0 := X0], mH := (mH c)[k := X0]\<rparr>)"

definition conv_init :: "bool \<Rightarrow> real list \<Rightarrow> int \<Rightarrow> bool \<times> FFTConvolverPartitioned" where
  \<comment> \<open>\<open>init(ir, blockSize)\<close>; \<open>fftw_ok\<close> tells whether the library's allocations and plans succeed\<close>
  "conv_init fftw_ok ir blockSize =
     (if blockSize \<le> 0 then (False, conv_clear)
      else
        (let c1 = conv_clear\<lparr>mBlock := blockSize, mFFT := 2 * blockSize,
                              mBins := (2 * blockSize) div 2 + 1\<rparr>;
             c2 = c1\<lparr>mParts := to_int32 ((int (length ir) + blockSize - 1) div blockSize)\<rparr>
         in if mParts c2 \<le> 0 then (False, c2)
            else
              (let c3 = c2\<lparr>mTimeIn := replicate (nat (mFFT c2)) 0,
                           mTimeOut := replicate (nat (mFFT c2)) 0,
                           mOverlap := replicate (nat (mBlock c2)) 0\<rparr>
               in if \<not> fftw_ok then (False, c3)
                  else
                    (let zeros = replicate (nat (mBins c3)) 0;
                         c4 = c3\<lparr>mFreqY := zeros,
                                  mH := replicate (nat (mParts c3)) zeros,
                                  mX := replicate (nat (mParts c3)) zeros\<rparr>;
                         c5 = fold (init_partition ir) [0..<nat (mParts c4)] c4;
                         c6 = c5\<lparr>mX := replicate (nat (mParts c5)) zeros\<rparr>
                     in (True, c6\<lparr>mWrite := 0, mReady := True\<rparr>)))))"

definition accumulate_partition ::
    "FFTConvolverPartitioned \<Rightarrow> complex list list \<Rightarrow> nat \<Rightarrow> complex list \<Rightarrow> complex list" where
  \<comment> \<open>one round of the loop over \<open>k\<close>: \<open>Y[b] += X[idx][b] * H[k][b]\<close> for every bin\<close>
  "accumulate_partition c X k Y =
     (let idx0 = mWrite c - int k;
          idx = (if idx0 < 0 then idx0 + mParts c else idx0);
          Xk = X ! nat idx;
          Hk = mH c ! k
      in write_n Y (nat (mBins c)) (\<lambda>b. cmul_acc (Y ! b) (Xk ! b) (Hk ! b)))"

definition processBlock ::
    "FFTConvolverPartitioned \<Rightarrow> real list \<Rightarrow> real list \<Rightarrow> int
       \<Rightarrow> bool \<times> FFTConvolverPartitioned \<times> real list" where
  \<comment> \<open>\<open>processBlock(in, out, n)\<close>: the result, the convolver after the call, and \<open>out\<close>\<close>
  "processBlock c inp out n =
     (if \<not> mReady c \<or> n \<noteq> mBlock c then (False, c, out)
      else
        (let B = nat (mBlock c);
             tin1 = memcpy (mTimeIn c) inp B;
             tin = write_range tin1 B (B + B) (\<lambda>i. 0);
             X = (mX c)[nat (mWrite c) := fftw_r2c (nat (mFFT c)) tin];
             Y0 = write_n (mFreqY c) (nat (mBins c)) (\<lambda>b. 0);
             Y = fold (accumulate_partition c X) [0..<nat (mParts c)] Y0;
             tout = fftw_c2r (nat (mFFT c)) Y;
             invFFT = 1 / real_of_int (mFFT c);
             out' = write_n out B (\<lambda>i. tout ! i * invFFT + mOverlap c ! i);
             overlap' = write_n (mOverlap c) B (\<lambda>i. tout ! (i + B) * invFFT);
             w1 = mWrite c + 1;
             w' = (if w1 \<ge> mParts c then 0 else w1)
         in (True,
             c\<lparr>mTimeIn := tin, mX := X, mFreqY := Y, mTimeOut := tout,
               mOverlap := overlap', mWrite := w'\<rparr>,
             out')))"

section \<open>Runtime nodes (signal\_chain\_nodes)\<close>

record ProcessContext =
  ctx_sampleRate :: nat
  maxBlockFrames :: nat
  inputTrimDb :: bool \<comment> \<open>whether the pointer to the realtime cell is set\<close>
  inputTrimLin :: bool

record rt_cells =
  \<comment> \<open>the two atomic cells the engine owns and the pointers above refer to\<close>
  cell_inputTrimDb :: real
  cell_inputTrimLin :: real

record NodeStandardParams =
  std_enabled :: bool
  levelDb :: real
  mix :: real
  levelLin :: real
  mixWet :: real
  mixDry :: real

definition NodeStandardParams_default :: NodeStandardParams where
  "NodeStandardParams_default =
     \<lparr>std_enabled = True, levelDb = 0, mix = 1, levelLin = 1, mixWet = 1, mixDry = 0\<rparr>"

definition json_number :: "Json \<Rightarrow> string \<Rightarrow> real option" where
  \<comment> \<open>\<open>j.is_object() && j.contains(k) && j[k].is_number()\<close>, then \<open>(float) j[k].get<double>()\<close>\<close>
  "json_number j k =
     (case jget j k of
        Some v \<Rightarrow> if is_number v then Some (get_double v) else None
      | None \<Rightarrow> None)"

definition json_bool :: "Json \<Rightarrow> string \<Rightarrow> bool option" where
  "json_bool j k = (case jget j k of Some (JBool b) \<Rightarrow> Some b | _ \<Rightarrow> None)"

definition numParam :: "NodeSpec \<Rightarrow> string \<Rightarrow> real option" where
  "numParam spec k = json_number (params spec) k"

definition parseStd :: "NodeSpec \<Rightarrow> NodeStandardParams" where
  "parseStd spec =
     (let p0 = NodeStandardParams_default\<lparr>std_enabled := enabled spec\<rparr>;
          p1 = (case json_number (params spec) ''levelDb'' of
                  Some v \<Rightarrow> p0\<lparr>levelDb := v\<rparr> | None \<Rightarrow> p0);
          p2 = (case json_number (params spec) ''outputGainDb'' of
                  Some v \<Rightarrow> p1\<lparr>levelDb := v\<rparr> | None \<Rightarrow> p1);
          p3 = (case json_number (params spec) ''mix'' of
                  Some v \<Rightarrow> p2\<lparr>mix := v\<rparr> | None \<Rightarrow> p2);
          p4 = p3\<lparr>levelDb := clampf (levelDb p3) (- 48) 24\<rparr>;
          p5 = p4\<lparr>mix := clampf (mix p4) 0 1\<rparr>
      in p5\<lparr>levelLin := dbToLin (levelDb p5), mixWet := mix p5, mixDry := 1 - mix p5\<rparr>)"

subsection \<open>Passthrough, input and output nodes\<close>

record PassthroughNode =
  pt_id :: string
  pt_type :: string
  pt_std :: NodeStandardParams

definition PassthroughNode_process ::
    "PassthroughNode \<Rightarrow> real list \<Rightarrow> real list \<Rightarrow> nat \<Rightarrow> real list" where
  "PassthroughNode_process nd inp out nframes =
     (if \<not> std_enabled (pt_std nd) then memcpy out inp nframes
      else
        (let level = levelLin (pt_std nd); wetG = mixWet (pt_std nd); dryG = mixDry (pt_std nd)
         in write_n out nframes (\<lambda>i. let wet = inp ! i * level in inp ! i * dryG + wet * wetG)))"

record InputNode =
  in_id :: string
  in_type :: string
  in_std :: NodeStandardParams
  in_inputTrimLin :: bool \<comment> \<open>whether the node holds a pointer to the realtime trim cell\<close>
  in_fallbackTrimLin :: real

definition InputNode_process ::
    "rt_cells \<Rightarrow> InputNode \<Rightarrow> real list \<Rightarrow> real list \<Rightarrow> nat \<Rightarrow> real list" where
  "InputNode_process cells nd inp out nframes =
     (let en = std_enabled (in_std nd);
          trim = (if in_inputTrimLin nd then cell_inputTrimLin cells else in_fallbackTrimLin nd);
          level = levelLin (in_std nd); wetG = mixWet (in_std nd); dryG = mixDry (in_std nd)
      in if \<not> en then memcpy out inp nframes
         else write_n out nframes
                (\<lambda>i. let wet = inp ! i * trim * level in inp ! i * dryG + wet * wetG))"

record OutputNode =
  on_id :: string
  on_type :: string
  on_std :: NodeStandardParams

definition OutputNode_process ::
    "OutputNode \<Rightarrow> real list \<Rightarrow> real list \<Rightarrow> nat \<Rightarrow> real list" where
  "OutputNode_process nd inp out nframes =
     (let en = std_enabled (on_std nd);
          level = levelLin (on_std nd); wetG = mixWet (on_std nd); dryG = mixDry (on_std nd)
      in if \<not> en then memcpy out inp nframes
         else write_n out nframes (\<lambda>i. let wet = inp ! i * level in inp ! i * dryG + wet * wetG))"

subsection \<open>Overdrive\<close>

record OverdriveNode =
  od_id :: string
  od_type :: string
  od_std :: NodeStandardParams
  drive :: real
  tone :: real
  outDb :: real
  pre :: real
  postLin :: real
  od_a :: real
  toneInv :: real
  z1 :: real

definition OverdriveNode_new ::
    "string \<Rightarrow> NodeStandardParams \<Rightarrow> real \<Rightarrow> real \<Rightarrow> real \<Rightarrow> OverdriveNode" where
  \<comment> \<open>the constructor \<open>OverdriveNode(id, sp, drive, tone, outDb)\<close>\<close>
  "OverdriveNode_new i sp drv tn odb =
     (let d = clampf drv 0 1; t = clampf tn 0 1
      in \<lparr>od_id = i, od_type = ''overdrive'', od_std = sp,
          drive = d, tone = t, outDb = odb,
          pre = 1 + d * 20,
          postLin = dbToLin odb * levelLin sp,
          od_a = 0.02 + (1 - t) * 0.2,
          toneInv = 1 - t,
          z1 = 0\<rparr>)"

fun overdrive_loop :: "OverdriveNode \<Rightarrow> real \<Rightarrow> real list \<Rightarrow> real \<times> real list" where
  \<comment> \<open>the sample loop on the samples \<open>in[0..nframes)\<close>: the final \<open>z\<close> and the samples written\<close>
  "overdrive_loop nd z [] = (z, [])"
| "overdrive_loop nd z (s # ss) =
     (let x = s * pre nd;
          y = softclipFast x;
          z' = z + od_a nd * (y - z);
          wet = (z' * toneInv nd + y * tone nd) * postLin nd;
          sample = s * mixDry (od_std nd) + wet * mixWet (od_std nd)
      in case overdrive_loop nd z' ss of (zf, written) \<Rightarrow> (zf, sample # written))"

definition OverdriveNode_process ::
    "OverdriveNode \<Rightarrow> real list \<Rightarrow> real list \<Rightarrow> nat \<Rightarrow> OverdriveNode \<times> real list" where
  "OverdriveNode_process nd inp out nframes =
     (if \<not> std_enabled (od_std nd) then (nd, memcpy out inp nframes)
      else (case overdrive_loop nd (z1 nd) (take nframes inp) of
              (z, written) \<Rightarrow> (nd\<lparr>z1 := z\<rparr>, write_n out nframes (\<lambda>i. written ! i))))"

subsection \<open>Amp model node\<close>

text \<open>
  Modelled from the spec: the amp model loader's object (the neural amp library is not
  part of the repository). A model reports an expected sample rate and an optional input
  level, can be reset, and processes a block: it returns the samples it wrote, or
  \<open>None\<close> when it throws, together with the model after the call.
\<close>

codatatype nam_DSP =
  NamDSP (GetExpectedSampleRate: real)
         (GetInputLevel: "real option")
         (ResetAndPrewarm: "real \<Rightarrow> int \<Rightarrow> nam_DSP")
         (nam_process: "real list \<Rightarrow> real list option \<times> nam_DSP")

record NamModelNode =
  nam_id :: string
  nam_type :: string
  nam_std :: NodeStandardParams
  model :: "nam_DSP option"
  nam_sr :: nat
  nam_maxFrames :: nat
  nam_in :: "real list"
  nam_out :: "real list"
  preGainDb :: real
  postGainDb :: real
  inLimit :: real
  softclip :: bool
  softclipTanh :: bool
  useInputLevel :: bool
  levelScaleLin :: real
  preLin :: real
  nam_postLin :: real
  lim :: real

definition NamModelNode_new ::
    "string \<Rightarrow> NodeStandardParams \<Rightarrow> nam_DSP option \<Rightarrow> nat \<Rightarrow> nat
       \<Rightarrow> real \<Rightarrow> real \<Rightarrow> real \<Rightarrow> bool \<Rightarrow> bool \<Rightarrow> bool \<Rightarrow> NamModelNode" where
  "NamModelNode_new i sp m rate maxFrames preDb postDb inLim sc scTanh useLevel =
     (let m' = map_option (\<lambda>d. ResetAndPrewarm d (real rate) (to_int32 (int maxFrames))) m;
          scale = (case m' of
                     Some d \<Rightarrow>
                       (case GetInputLevel d of
                          Some modelDbu \<Rightarrow>
                            if useLevel then 10 powr ((12.2 - modelDbu) / 20) else 1
                        | None \<Rightarrow> 1)
                   | None \<Rightarrow> 1)
      in \<lparr>nam_id = i, nam_type = ''nam_model'', nam_std = sp, model = m',
          nam_sr = rate, nam_maxFrames = maxFrames,
          nam_in = replicate maxFrames 0, nam_out = replicate maxFrames 0,
          preGainDb = preDb, postGainDb = postDb, inLimit = inLim,
          softclip = sc, softclipTanh = scTanh, useInputLevel = useLevel,
          levelScaleLin = scale,
          preLin = dbToLin preDb * scale,
          nam_postLin = dbToLin postDb * levelLin sp,
          lim = clampf inLim 0.05 1\<rparr>)"

definition nam_prepare :: "NamModelNode \<Rightarrow> real \<Rightarrow> real" where
  \<comment> \<open>the body of the loop that fills \<open>in_\<close>\<close>
  "nam_prepare nd s =
     (let x0 = s * preLin nd;
          x = (if x0 > lim nd then lim nd else if x0 < - lim nd then - lim nd else x0)
      in if \<not> softclip nd then x
         else if softclipTanh nd then tanh x else softclipFast x)"

definition NamModelNode_process ::
    "NamModelNode \<Rightarrow> real list \<Rightarrow> real list \<Rightarrow> nat \<Rightarrow> NamModelNode \<times> real list" where
  "NamModelNode_process nd inp out nframes =
     (let frames = (if nframes \<le> nam_maxFrames nd then nframes else nam_maxFrames nd)
      in case (if std_enabled (nam_std nd) then model nd else None) of
           None \<Rightarrow> (nd, memcpy out inp nframes)
         | Some m \<Rightarrow>
             (let in' = write_n (nam_in nd) frames (\<lambda>i. nam_prepare nd (inp ! i));
                  out' = (case fst (nam_process m (take frames in')) of
                            Some ys \<Rightarrow> write_n (nam_out nd) frames (\<lambda>i. ys ! i)
                          | None \<Rightarrow> memcpy (nam_out nd) in' frames);
                  m' = snd (nam_process m (take frames in'));
                  o1 = write_n out frames
                         (\<lambda>i. let wet = out' ! i * nam_postLin nd
                              in inp ! i * mixDry (nam_std nd) + wet * mixWet (nam_std nd));
                  o2 = write_range o1 frames nframes (\<lambda>i. inp ! i)
              in (nd\<lparr>model := Some m', nam_in := in', nam_out := out'\<rparr>, o2)))"

subsection \<open>Cabinet node\<close>

record IrConvolverNode =
  ir_id :: string
  ir_type :: string
  ir_std :: NodeStandardParams
  conv :: FFTConvolverPartitioned
  ir_maxFrames :: nat
  ir_out :: "real list"

definition IrConvolverNode_new ::
    "string \<Rightarrow> NodeStandardParams \<Rightarrow> FFTConvolverPartitioned \<Rightarrow> nat \<Rightarrow> IrConvolverNode" where
  "IrConvolverNode_new i sp c maxFrames =
     \<lparr>ir_id = i, ir_type = ''ir_convolver'', ir_std = sp, conv = c,
      ir_maxFrames = maxFrames, ir_out = replicate maxFrames 0\<rparr>"

definition IrConvolverNode_process ::
    "IrConvolverNode \<Rightarrow> real list \<Rightarrow> real list \<Rightarrow> nat \<Rightarrow> IrConvolverNode \<times> real list" where
  "IrConvolverNode_process nd inp out nframes =
     (if \<not> std_enabled (ir_std nd) \<or> \<not> mReady (conv nd) then (nd, memcpy out inp nframes)
      else
        (let frames = (if nframes \<le> ir_maxFrames nd then nframes else ir_maxFrames nd)
         in case processBlock (conv nd) inp (ir_out nd) (to_int32 (int frames)) of
              (ok, c', out1) \<Rightarrow>
                (let out' = (if \<not> ok then memcpy out1 inp frames else out1);
                     level = levelLin (ir_std nd);
                     o1 = write_n out frames
                            (\<lambda>i. let wet = out' ! i * level
                                 in inp ! i * mixDry (ir_std nd) + wet * mixWet (ir_std nd));
                     o2 = write_range o1 frames nframes (\<lambda>i. inp ! i)
                 in (nd\<lparr>conv := c', ir_out := out'\<rparr>, o2))))"

subsection \<open>The node interface\<close>

datatype INode =
    Passthrough PassthroughNode
  | Input InputNode
  | Output OutputNode
  | Overdrive OverdriveNode
  | NamModel NamModelNode
  | IrConvolver IrConvolverNode

fun INode_id :: "INode \<Rightarrow> string" where
  "INode_id (Passthrough nd) = pt_id nd"
| "INode_id (Input nd) = in_id nd"
| "INode_id (Output nd) = on_id nd"
| "INode_id (Overdrive nd) = od_id nd"
| "INode_id (NamModel nd) = nam_id nd"
| "INode_id (IrConvolver nd) = ir_id nd"

fun INode_type :: "INode \<Rightarrow> string" where
  "INode_type (Passthrough nd) = pt_type nd"
| "INode_type (Input nd) = in_type nd"
| "INode_type (Output nd) = on_type nd"
| "INode_type (Overdrive nd) = od_type nd"
| "INode_type (NamModel nd) = nam_type nd"
| "INode_type (IrConvolver nd) = ir_type nd"

fun INode_std :: "INode \<Rightarrow> NodeStandardParams" where
  \<comment> \<open>the member \<open>std_\<close> every node class has\<close>
  "INode_std (Passthrough nd) = pt_std nd"
| "INode_std (Input nd) = in_std nd"
| "INode_std (Output nd) = on_std nd"
| "INode_std (Overdrive nd) = od_std nd"
| "INode_std (NamModel nd) = nam_std nd"
| "INode_std (IrConvolver nd) = ir_std nd"

fun INode_process ::
    "rt_cells \<Rightarrow> INode \<Rightarrow> real list \<Rightarrow> real list \<Rightarrow> nat \<Rightarrow> INode \<times> real list" where
  \<comment> \<open>the virtual call \<open>node->process(in, out, nframes)\<close>: the node and \<open>out\<close> after it\<close>
  "INode_process cells (Passthrough nd) inp out n = (Passthrough nd, PassthroughNode_process nd inp out n)"
| "INode_process cells (Input nd) inp out n = (Input nd, InputNode_process cells nd inp out n)"
| "INode_process cells (Output nd) inp out n = (Output nd, OutputNode_process nd inp out n)"
| "INode_process cells (Overdrive nd) inp out n =
     (case OverdriveNode_process nd inp out n of (nd', out') \<Rightarrow> (Overdrive nd', out'))"
| "INode_process cells (NamModel nd) inp out n =
     (case NamModelNode_process nd inp out n of (nd', out') \<Rightarrow> (NamModel nd', out'))"
| "INode_process cells (IrConvolver nd) inp out n =
     (case IrConvolverNode_process nd inp out n of (nd', out') \<Rightarrow> (IrConvolver nd', out'))"

subsection \<open>Loading an impulse response (ir\_loader)\<close>

fun string_of_nat :: "nat \<Rightarrow> string" where
  \<comment> \<open>\<open>std::to_string\<close> of a non-negative number\<close>
  "string_of_nat n =
     (if n < 10 then [char_of (48 + n)]
      else string_of_nat (n div 10) @ [char_of (48 + n mod 10)])"

declare string_of_nat.simps [simp del]

definition to_string :: "int \<Rightarrow> string" where
  "to_string i = (if i < 0 then CHR ''-'' # string_of_nat (nat (- i)) else string_of_nat (nat i))"

definition llround :: "real \<Rightarrow> int" where
  \<comment> \<open>\<open>std::llround\<close>: to the nearest integer, halves away from zero\<close>
  "llround x = (if 0 \<le> x then \<lfloor>x + 1 / 2\<rfloor> else \<lceil>x - 1 / 2\<rceil>)"

record IRData =
  ir_sampleRate :: int
  mono :: "real list"

text \<open>
  Modelled from the spec: what the audio file library (not part of the repository)
  reports for a file it opened: the metadata, the interleaved samples read, and the
  number of frames read.
\<close>

record sndfile =
  sf_frames :: int
  sf_samplerate :: int
  sf_channels :: int
  sf_interleaved :: "real list"
  sf_got :: int

definition load_ir_mono :: "(string \<Rightarrow> string + sndfile) \<Rightarrow> string \<Rightarrow> string + IRData" where
  \<comment> \<open>\<open>sf_open\<close> is the library's answer for a path: \<open>Inl\<close> is \<open>sf_strerror\<close>\<close>
  "load_ir_mono sf_open p =
     (case sf_open p of
        Inl e \<Rightarrow> Inl (''sndfile open failed: '' @ e)
      | Inr f \<Rightarrow>
          if sf_frames f \<le> 0 \<or> sf_samplerate f \<le> 0 \<or> sf_channels f \<le> 0
          then Inl ''invalid audio file metadata''
          else if sf_got f \<noteq> sf_frames f then Inl ''short read from audio file''
          else
            (let ch = nat (sf_channels f);
                 m = (if sf_channels f = 1 then sf_interleaved f
                      else map (\<lambda>i. (\<Sum>c<ch. sf_interleaved f ! (i * ch + c)) / real ch)
                             [0..<nat (sf_frames f)]);
                 mean = fold (\<lambda>v acc. acc + v) m 0 / real (length m)
             in Inr \<lparr>ir_sampleRate = sf_samplerate f, mono = map (\<lambda>v. v - mean) m\<rparr>))"

subsection \<open>Building a node\<close>

text \<open>
  What \<open>buildNode\<close> reads from outside the repository: the amp model loader (\<open>Inl\<close> is
  the message of the exception it throws, \<open>Inr None\<close> a null model), the audio file
  library, two environment variables (the number \<open>strtol\<close> or \<open>atoi\<close> reads, when the
  variable is set) and whether the FFT library's allocations succeed.
\<close>

record build_env =
  get_dsp :: "string \<Rightarrow> string + nam_DSP option"
  sf_open :: "string \<Rightarrow> string + sndfile"
  ALSA_IR_MAX_SAMPLES :: "int option"
  ALSA_NODE_TIMING :: "int option"
  fftw_ok :: bool

record NodeBuildResult =
  node :: INode
  warning :: string

definition asset_path :: "NodeSpec \<Rightarrow> string option" where
  \<comment> \<open>\<open>None\<close> when \<open>!spec.asset || spec.asset->path.empty()\<close>\<close>
  "asset_path spec =
     (case asset spec of
        None \<Rightarrow> None
      | Some a \<Rightarrow> if path a = [] then None else Some (path a))"

definition bypass_node :: "NodeSpec \<Rightarrow> string \<Rightarrow> string \<Rightarrow> NodeBuildResult" where
  \<comment> \<open>the passthrough node of a disabled or asset-less amp or cab\<close>
  "bypass_node spec t w =
     \<lparr>node = Passthrough \<lparr>pt_id = node_id spec, pt_type = t,
                           pt_std = (parseStd spec)\<lparr>std_enabled := False\<rparr>\<rparr>,
      warning = w\<rparr>"

definition build_input :: "NodeSpec \<Rightarrow> ProcessContext \<Rightarrow> rt_cells \<Rightarrow> NodeBuildResult \<times> rt_cells" where
  "build_input spec ctx cells =
     (let sp = parseStd spec;
          trimDb = (case numParam spec ''inputTrimDb'' of
                      Some v \<Rightarrow> clampf v (- 24) 24 | None \<Rightarrow> 0);
          trimLin = dbToLin trimDb;
          cells1 = (if inputTrimDb ctx then cells\<lparr>cell_inputTrimDb := trimDb\<rparr> else cells);
          cells2 = (if inputTrimLin ctx then cells1\<lparr>cell_inputTrimLin := trimLin\<rparr> else cells1)
      in (\<lparr>node = Input \<lparr>in_id = node_id spec, in_type = ''input'', in_std = sp,
                          in_inputTrimLin = inputTrimLin ctx, in_fallbackTrimLin = trimLin\<rparr>,
           warning = []\<rparr>, cells2))"

definition build_overdrive :: "NodeSpec \<Rightarrow> NodeBuildResult" where
  "build_overdrive spec =
     (let sp = parseStd spec;
          drv = (case numParam spec ''drive'' of Some v \<Rightarrow> v | None \<Rightarrow> 0.6);
          tn = (case numParam spec ''tone'' of Some v \<Rightarrow> v | None \<Rightarrow> 0.5);
          odb = (case numParam spec ''levelDb'' of Some v \<Rightarrow> v | None \<Rightarrow> 0)
      in \<lparr>node = Overdrive (OverdriveNode_new (node_id spec) sp drv tn odb), warning = []\<rparr>)"

definition build_nam :: "build_env \<Rightarrow> NodeSpec \<Rightarrow> ProcessContext \<Rightarrow> string + NodeBuildResult" where
  "build_nam env spec ctx =
     (if \<not> enabled spec then Inr (bypass_node spec ''nam_model'' [])
      else case asset_path spec of
        None \<Rightarrow> Inr (bypass_node spec ''nam_model'' ''nam_model missing asset.path (bypassing)'')
      | Some p \<Rightarrow>
          (case get_dsp env p of
             Inl what \<Rightarrow> Inl (''Failed to load NAM model: '' @ what)
           | Inr None \<Rightarrow> Inl ''Failed to load NAM model (get_dsp returned null)''
           | Inr (Some m) \<Rightarrow>
               (let expSR = GetExpectedSampleRate m;
                    w = (if expSR > 0 \<and> llround expSR \<noteq> int (ctx_sampleRate ctx)
                         then ''NAM expected sampleRate='' @ to_string (to_int32 (llround expSR))
                              @ '' but engine is '' @ to_string (int (ctx_sampleRate ctx))
                         else []);
                    sp = parseStd spec;
                    preDb = (case numParam spec ''preGainDb'' of Some v \<Rightarrow> v | None \<Rightarrow> - 12);
                    postDb = (case numParam spec ''postGainDb'' of Some v \<Rightarrow> v | None \<Rightarrow> 0);
                    inLim = (case numParam spec ''inLimit'' of Some v \<Rightarrow> v | None \<Rightarrow> 0.90);
                    sc = (case json_bool (params spec) ''softclip'' of Some b \<Rightarrow> b | None \<Rightarrow> True);
                    scTanh = (case json_bool (params spec) ''softclipTanh'' of
                                Some b \<Rightarrow> b | None \<Rightarrow> False);
                    useLevel = (case json_bool (params spec) ''useInputLevel'' of
                                  Some b \<Rightarrow> b | None \<Rightarrow> True)
                in Inr \<lparr>node = NamModel (NamModelNode_new (node_id spec) sp (Some m)
                                            (ctx_sampleRate ctx) (maxBlockFrames ctx)
                                            preDb postDb inLim sc scTanh useLevel),
                        warning = w\<rparr>)))"

definition ir_gain :: "NodeSpec \<Rightarrow> real list \<Rightarrow> real list" where
  "ir_gain spec m =
     (let gainDb = (case numParam spec ''gainDb'' of Some v \<Rightarrow> v | None \<Rightarrow> 0);
          gainLin = dbToLin (clampf gainDb (- 24) 24)
      in if gainLin \<noteq> 1 then map (\<lambda>v. v * gainLin) m else m)"

definition ir_normalise :: "NodeSpec \<Rightarrow> real list \<Rightarrow> real list" where
  "ir_normalise spec m =
     (case numParam spec ''targetDb'' of
        None \<Rightarrow> m
      | Some targetDb \<Rightarrow>
          (let peak = fold (\<lambda>v pk. max pk \<bar>v\<bar>) m 0;
               target = dbToLin (clampf targetDb (- 24) 0)
           in if peak > 0 then map (\<lambda>v. v * (target / peak)) m else m))"

definition ir_maxSamples :: "build_env \<Rightarrow> NodeSpec \<Rightarrow> ProcessContext \<Rightarrow> nat" where
  "ir_maxSamples env spec ctx =
     (let m1 = (case numParam spec ''maxSamples'' of
                  Some vf \<Rightarrow> if vf > 0 then to_uint32 (llround vf) else 0
                | None \<Rightarrow> 0);
          m2 = (if m1 = 0
                then (case numParam spec ''maxMs'' of
                        Some ms \<Rightarrow>
                          if ms > 0 then to_uint32 (llround (ms / 1000 * real (ctx_sampleRate ctx)))
                          else 0
                      | None \<Rightarrow> 0)
                else m1)
      in if m2 = 0
         then (case ALSA_IR_MAX_SAMPLES env of
                 Some v \<Rightarrow> if v > 0 then to_uint32 v else 0
               | None \<Rightarrow> 0)
         else m2)"

definition ir_trim :: "nat \<Rightarrow> real list \<Rightarrow> real list \<times> string" where
  \<comment> \<open>the truncation with its raised-cosine taper, and the warning it leaves\<close>
  "ir_trim maxSamples m =
     (if maxSamples > 0 \<and> length m > maxSamples
      then
        (let taper = min 128 maxSamples;
             start = maxSamples - taper;
             kPi = 3.14159265358979323846;
             tapered =
               (if taper > 1
                then write_range m start (start + taper)
                       (\<lambda>j. let t = real (j - start) / real (taper - 1);
                                g = 0.5 * (1 + cos (kPi * t))
                            in m ! j * g)
                else m)
         in (take maxSamples tapered,
             ''IR trimmed from '' @ to_string (int (length m)) @ '' to ''
               @ to_string (int maxSamples) @ '' samples''))
      else (m, []))"

definition build_ir :: "build_env \<Rightarrow> NodeSpec \<Rightarrow> ProcessContext \<Rightarrow> string + NodeBuildResult" where
  "build_ir env spec ctx =
     (if \<not> enabled spec then Inr (bypass_node spec ''ir_convolver'' [])
      else case asset_path spec of
        None \<Rightarrow>
          Inr (bypass_node spec ''ir_convolver'' ''ir_convolver missing asset.path (bypassing)'')
      | Some p \<Rightarrow>
          (case load_ir_mono (sf_open env) p of
             Inl loadErr \<Rightarrow> Inl (''Failed to load IR: '' @ loadErr)
           | Inr ir \<Rightarrow>
               if ir_sampleRate ir \<noteq> to_int32 (int (ctx_sampleRate ctx))
               then Inl (''IR sample-rate mismatch (IR='' @ to_string (ir_sampleRate ir)
                         @ '' engine='' @ to_string (int (ctx_sampleRate ctx)) @ '')'')
               else
                 (case ir_trim (ir_maxSamples env spec ctx) (ir_normalise spec (ir_gain spec (mono ir))) of
                    (m, w) \<Rightarrow>
                      (case conv_init (fftw_ok env) m (to_int32 (int (maxBlockFrames ctx))) of
                         (ok, c) \<Rightarrow>
                           if \<not> ok then Inl ''IR convolver init failed''
                           else Inr \<lparr>node = IrConvolver
                                       (IrConvolverNode_new (node_id spec) (parseStd spec) c
                                          (maxBlockFrames ctx)),
                                     warning = w\<rparr>))))"

definition buildNode ::
    "build_env \<Rightarrow> NodeSpec \<Rightarrow> ProcessContext \<Rightarrow> rt_cells \<Rightarrow> (string + NodeBuildResult) \<times> rt_cells" where
  \<comment> \<open>the result, and the realtime cells after the build (an input node seeds them)\<close>
  "buildNode env spec ctx cells =
     (if node_type spec = ''input''
      then (case build_input spec ctx cells of (r, cells') \<Rightarrow> (Inr r, cells'))
      else if node_type spec = ''output''
      then (Inr \<lparr>node = Output \<lparr>on_id = node_id spec, on_type = ''output'',
                                 on_std = parseStd spec\<rparr>,
                  warning = []\<rparr>, cells)
      else if node_type spec = ''overdrive'' then (Inr (build_overdrive spec), cells)
      else if node_type spec = ''nam_model'' then (build_nam env spec ctx, cells)
      else if node_type spec = ''ir_convolver'' then (build_ir env spec ctx, cells)
      else (Inl (''Unknown node type: '' @ node_type spec), cells))"

subsection \<open>The type manifest\<close>

definition manifest_bool :: "string \<Rightarrow> bool \<Rightarrow> Json" where
  \<comment> \<open>\<open>Json{{"key", k}, {"type", "bool"}, {"default", d}}\<close>\<close>
  "manifest_bool k d = JObject [(''key'', JString k), (''type'', JString ''bool''), (''default'', JBool d)]"

definition manifest_float :: "string \<Rightarrow> real \<Rightarrow> real \<Rightarrow> real \<Rightarrow> Json" where
  \<comment> \<open>\<open>Json{{"key", k}, {"type", "float"}, {"min", lo}, {"max", hi}, {"default", d}}\<close>\<close>
  "manifest_float k lo hi d =
     JObject [(''key'', JString k), (''type'', JString ''float''),
              (''min'', JFloat lo), (''max'', JFloat hi), (''default'', JFloat d)]"

definition nodeTypeManifest :: Json where
  "nodeTypeManifest =
     JObject
      [(''version'', JInt 1),
       (''types'', JArray
         [JObject [(''type'', JString ''overdrive''), (''category'', JString ''fx''),
                   (''params'', JArray
                     [manifest_bool ''enabled'' True,
                      manifest_float ''mix'' 0 1 1,
                      manifest_float ''levelDb'' (- 48) 24 0,
                      manifest_float ''drive'' 0 1 0.6,
                      manifest_float ''tone'' 0 1 0.5])],
          JObject [(''type'', JString ''nam_model''), (''category'', JString ''amp''),
                   (''asset'', JObject [(''required'', JBool True), (''kind'', JString ''nam_model'')]),
                   (''params'', JArray
                     [manifest_bool ''enabled'' True,
                      manifest_float ''mix'' 0 1 1,
                      manifest_float ''levelDb'' (- 48) 24 0,
                      manifest_float ''preGainDb'' (- 24) 24 (- 12),
                      manifest_float ''postGainDb'' (- 24) 24 0,
                      manifest_float ''inLimit'' 0.05 1 0.90,
                      manifest_bool ''softclip'' True,
                      manifest_bool ''softclipTanh'' False,
                      manifest_bool ''useInputLevel'' True])],
          JObject [(''type'', JString ''ir_convolver''), (''category'', JString ''cab''),
                   (''asset'', JObject [(''required'', JBool True), (''kind'', JString ''ir_wav'')]),
                   (''params'', JArray
                     [manifest_bool ''enabled'' True,
                      manifest_float ''mix'' 0 1 1,
                      manifest_float ''levelDb'' (- 48) 24 0,
                      manifest_float ''gainDb'' (- 24) 24 0,
                      manifest_float ''targetDb'' (- 24) 0 (- 6),
                      manifest_float ''maxSamples'' 0 192000 0,
                      manifest_float ''maxMs'' 0 500 0])],
          JObject [(''type'', JString ''input''), (''category'', JString ''utility'')],
          JObject [(''type'', JString ''output''), (''category'', JString ''utility'')]])]"

fun json_strings :: "Json \<Rightarrow> string list" where
  \<comment> \<open>every string that occurs in a JSON value, keys and values alike\<close>
  "json_strings (JString s) = [s]"
| "json_strings (JArray xs) = concat (map json_strings xs)"
| "json_strings (JObject kv) = concat (map (\<lambda>(k, v). k # json_strings v) kv)"
| "json_strings j = []"

section \<open>The signal chain (signal\_chain)\<close>

text \<open>
  The chain owns its nodes and two scratch buffers. With \<open>ALSA_NODE_TIMING\<close> set the
  source runs the same node calls and reads the clock around each; the wall-clock
  statistics are not part of this model.
\<close>

record SignalChain =
  sc_spec :: ChainSpec
  nodes :: "INode list"
  sc_ctx :: ProcessContext
  bufA :: "real list"
  bufB :: "real list"
  nodeTimingEnabled :: bool

definition SignalChain_new :: "build_env \<Rightarrow> ChainSpec \<Rightarrow> INode list \<Rightarrow> ProcessContext \<Rightarrow> SignalChain" where
  "SignalChain_new env spec ns ctx =
     \<lparr>sc_spec = spec, nodes = ns, sc_ctx = ctx,
      bufA = replicate (maxBlockFrames ctx) 0,
      bufB = replicate (maxBlockFrames ctx) 0,
      nodeTimingEnabled = (case ALSA_NODE_TIMING env of Some v \<Rightarrow> v \<noteq> 0 | None \<Rightarrow> False)\<rparr>"

fun process_rest ::
    "rt_cells \<Rightarrow> INode list \<Rightarrow> real list \<Rightarrow> real list \<Rightarrow> bool \<Rightarrow> nat
       \<Rightarrow> INode list \<times> real list \<times> real list \<times> bool" where
  \<comment> \<open>the loop over nodes \<open>1..\<close>: \<open>a\<close> and \<open>b\<close> are the buffers the two pointers refer to,
      the flag tells whether the pointers are swapped with respect to \<open>bufA_\<close>, \<open>bufB_\<close>\<close>
  "process_rest cells [] a b swapped frames = ([], a, b, swapped)"
| "process_rest cells (nd # nds) a b swapped frames =
     (case INode_process cells nd a b frames of
        (nd', b') \<Rightarrow>
          (case process_rest cells nds b' a (\<not> swapped) frames of
             (nds', a'', b'', swapped'') \<Rightarrow> (nd' # nds', a'', b'', swapped'')))"

definition SignalChain_process ::
    "rt_cells \<Rightarrow> SignalChain \<Rightarrow> real list \<Rightarrow> real list \<Rightarrow> nat \<Rightarrow> SignalChain \<times> real list" where
  \<comment> \<open>\<open>process(in, out, nframes)\<close> with \<open>in\<close> and \<open>out\<close> distinct buffers: the chain and \<open>out\<close> after it\<close>
  "SignalChain_process cells sc inp out nframes =
     (let frames = (if nframes \<le> maxBlockFrames (sc_ctx sc) then nframes
                    else maxBlockFrames (sc_ctx sc))
      in case nodes sc of
           [] \<Rightarrow> (sc, memcpy out inp nframes)
         | nd0 # nds \<Rightarrow>
             (case INode_process cells nd0 inp (bufA sc) frames of
                (nd0', a0) \<Rightarrow>
                  (case process_rest cells nds a0 (bufB sc) False frames of
                     (nds', a, b, swapped) \<Rightarrow>
                       (let out1 = memcpy out a frames;
                            out2 = (if frames < nframes
                                    then write_range out1 frames nframes (\<lambda>i. inp ! i)
                                    else out1)
                        in (sc\<lparr>nodes := nd0' # nds',
                               bufA := (if swapped then b else a),
                               bufB := (if swapped then a else b)\<rparr>,
                            out2)))))"

fun buildNodes ::
    "build_env \<Rightarrow> NodeSpec list \<Rightarrow> ProcessContext \<Rightarrow> rt_cells \<Rightarrow> INode list \<Rightarrow> string
       \<Rightarrow> (string + INode list \<times> string) \<times> rt_cells" where
  \<comment> \<open>the loop of \<open>buildChain\<close>, with the nodes built and the warnings joined so far\<close>
  "buildNodes env [] ctx cells built warnings = (Inr (built, warnings), cells)"
| "buildNodes env (ns # rest) ctx cells built warnings =
     (case buildNode env ns ctx cells of
        (Inl nodeErr, cells') \<Rightarrow>
          (Inl (''Failed to build node '' @ apos # node_id ns @ apos # '' ('' @ node_type ns
                @ ''): '' @ nodeErr), cells')
      | (Inr r, cells') \<Rightarrow>
          (let warnings' =
                 (if warning r \<noteq> []
                  then (if warnings \<noteq> [] then warnings @ [CHR 0x0A] else warnings) @ warning r
                  else warnings)
           in buildNodes env rest ctx cells' (built @ [node r]) warnings'))"

record BuildChainResult =
  built_chain :: SignalChain
  built_warning :: string

definition buildChain ::
    "build_env \<Rightarrow> ChainSpec \<Rightarrow> ProcessContext \<Rightarrow> rt_cells \<Rightarrow> (string + BuildChainResult) \<times> rt_cells" where
  "buildChain env spec ctx cells =
     (case buildNodes env (chain spec) ctx cells [] [] of
        (Inl e, cells') \<Rightarrow> (Inl e, cells')
      | (Inr (ns, w), cells') \<Rightarrow>
          (Inr \<lparr>built_chain = SignalChain_new env spec ns ctx, built_warning = w\<rparr>, cells'))"

section \<open>The control server (chain\_control\_server)\<close>

text \<open>
  A shared pointer to a chain is an optional chain, \<open>None\<close> the empty pointer. The disk
  is a map from paths to the document a file holds; a file whose data did not all reach
  it holds no whole document. What the file system does to one \<open>persistChainToDisk\<close>
  call is a parameter: it succeeds, or one of its steps fails with the message of the
  error. The function does not look at the result of \<open>fclose\<close>: when \<open>fwrite\<close> has
  taken the whole text into the stream's buffer and the buffer cannot be written out when
  the stream is closed, the function goes on and renames a temporary file that holds no
  whole document.
\<close>

datatype file_content = Whole Json | Truncated

datatype disk_outcome =
    DiskOk
  | CreateDirectoriesThrows string
  | OpenFails string
  | ShortWrite \<comment> \<open>\<open>fwrite\<close> returns less than the size of the text\<close>
  | CloseFails \<comment> \<open>\<open>fwrite\<close> returns the full count, the write fails in \<open>fclose\<close>\<close>
  | CloseFailsRenameThrows string
  | RenameThrows string

definition persistChainToDisk ::
    "disk_outcome \<Rightarrow> string \<Rightarrow> ChainSpec \<Rightarrow> (string \<rightharpoonup> file_content)
       \<Rightarrow> string option \<times> (string \<rightharpoonup> file_content)" where
  \<comment> \<open>\<open>Some err\<close> when the function returns false; the temporary file is \<open>path.tmp\<close>\<close>
  "persistChainToDisk outcome p spec disk =
     (let tmp = p @ ''.tmp''; j = chainSpecToJson spec
      in case outcome of
           CreateDirectoriesThrows what \<Rightarrow> (Some what, disk)
         | OpenFails strerror \<Rightarrow> (Some (''Failed to open temp file: '' @ strerror), disk)
         | ShortWrite \<Rightarrow> (Some ''Short write'', disk(tmp \<mapsto> Truncated))
         | CloseFails \<Rightarrow> (None, (disk(tmp := None))(p \<mapsto> Truncated))
         | CloseFailsRenameThrows what \<Rightarrow> (Some what, disk(tmp \<mapsto> Truncated))
         | RenameThrows what \<Rightarrow> (Some what, disk(tmp \<mapsto> Whole j))
         | DiskOk \<Rightarrow> (None, (disk(tmp := None))(p \<mapsto> Whole j)))"

record ChainRuntimeState =
  activeChain :: "SignalChain option"
  pendingChain :: "SignalChain option"
  lastSpec :: ChainSpec
  ctx :: ProcessContext
  cells :: rt_cells
  configPath :: string
  disk :: "string \<rightharpoonup> file_content"

definition error_response :: "string \<Rightarrow> Json" where
  \<comment> \<open>\<open>Json{{"ok", false}, {"error", msg}}\<close>\<close>
  "error_response msg = JObject [(''ok'', JBool False), (''error'', JString msg)]"

definition handle_set_chain ::
    "build_env \<Rightarrow> disk_outcome \<Rightarrow> ChainRuntimeState \<Rightarrow> Json \<Rightarrow> Json \<times> ChainRuntimeState" where
  "handle_set_chain env outcome state req =
     (case jget req ''chain'' of
        None \<Rightarrow> (error_response ''missing chain'', state)
      | Some c \<Rightarrow>
          (case parseChainJson c of
             Inl verr \<Rightarrow> (error_response verr, state)
           | Inr parsed0 \<Rightarrow>
               (let parsed = parsed0\<lparr>sampleRate := ctx_sampleRate (ctx state)\<rparr>
                in case validateChainSpec parsed of
                     Inl verr \<Rightarrow> (error_response verr, state)
                   | Inr validated \<Rightarrow>
                       (case buildChain env validated (ctx state) (cells state) of
                          (Inl buildErr, cells') \<Rightarrow>
                            (error_response buildErr, state\<lparr>cells := cells'\<rparr>)
                        | (Inr built, cells') \<Rightarrow>
                            (case persistChainToDisk outcome (configPath state) validated (disk state) of
                               (Some persistErr, disk') \<Rightarrow>
                                 (error_response (''persist failed: '' @ persistErr),
                                  state\<lparr>cells := cells', disk := disk'\<rparr>)
                             | (None, disk') \<Rightarrow>
                                 (JObject ((''ok'', JBool True)
                                    # (if built_warning built \<noteq> []
                                       then [(''warning'', JString (built_warning built))]
                                       else [])),
                                  state\<lparr>cells := cells', disk := disk',
                                        lastSpec := validated,
                                        pendingChain := Some (built_chain built)\<rparr>))))))"

definition handleRequest ::
    "build_env \<Rightarrow> disk_outcome \<Rightarrow> ChainRuntimeState \<Rightarrow> Json \<Rightarrow> Json \<times> ChainRuntimeState" where
  "handleRequest env outcome state req =
     (if \<not> is_object req then (error_response ''request must be an object'', state)
      else case jget req ''cmd'' of
        Some (JString cmd) \<Rightarrow>
          if cmd = ''list_types''
          then (JObject [(''ok'', JBool True), (''types'', nodeTypeManifest)], state)
          else if cmd = ''get_chain''
          then (case activeChain state of
                  None \<Rightarrow> (error_response ''no active chain'', state)
                | Some current \<Rightarrow>
                    (JObject [(''ok'', JBool True), (''chain'', chainSpecToJson (sc_spec current))],
                     state))
          else if cmd = ''set_chain'' then handle_set_chain env outcome state req
          else (error_response ''unknown cmd'', state)
      | _ \<Rightarrow> (error_response ''missing string cmd'', state))"

definition serve_line ::
    "build_env \<Rightarrow> disk_outcome \<Rightarrow> ChainRuntimeState \<Rightarrow> string + Json \<Rightarrow> Json \<times> ChainRuntimeState" where
  \<comment> \<open>one accepted connection: the line is parsed (\<open>Inl\<close> is the parser's exception) and answered\<close>
  "serve_line env outcome state parsed =
     (case parsed of
        Inl what \<Rightarrow> (error_response (''parse error: '' @ what), state)
      | Inr req \<Rightarrow> handleRequest env outcome state req)"

section \<open>The audio loop's chain swap (main\_alsa)\<close>

text \<open>
  The swap protocol moves shared pointers and never looks into a chain, so a pointer
  is an optional handle of any type \<open>'h\<close>. The threads meet only in atomic operations
  on single cells; the model runs them one after the other in a given order.
\<close>

subsection \<open>The retirement ring\<close>

definition kRetireQueueSize :: nat where
  "kRetireQueueSize = 128"

record 'h retire_ring =
  gRetireQueue :: "nat \<Rightarrow> 'h option"
  gRetireWrite :: nat
  gRetireRead :: nat
  gRetireQueueFull :: nat

definition u64_sub :: "nat \<Rightarrow> nat \<Rightarrow> nat" where
  \<comment> \<open>\<open>w - r\<close> on \<open>uint64_t\<close>\<close>
  "u64_sub w r = (w + 2 ^ 64 - r mod 2 ^ 64) mod 2 ^ 64"

definition retireQueueHasSpace :: "'h retire_ring \<Rightarrow> bool" where
  "retireQueueHasSpace q \<longleftrightarrow> u64_sub (gRetireWrite q) (gRetireRead q) < kRetireQueueSize"

definition retireChainFromAudioThread ::
    "'h retire_ring \<Rightarrow> 'h option \<Rightarrow> bool \<times> 'h retire_ring \<times> 'h option" where
  \<comment> \<open>the result, the ring, and the caller's pointer \<open>old\<close> after the call\<close>
  "retireChainFromAudioThread q old =
     (case old of
        None \<Rightarrow> (True, q, None)
      | Some h \<Rightarrow>
          if u64_sub (gRetireWrite q) (gRetireRead q) \<ge> kRetireQueueSize
          then (False, q\<lparr>gRetireQueueFull := (gRetireQueueFull q + 1) mod 2 ^ 64\<rparr>, Some h)
          else (True,
                q\<lparr>gRetireQueue := (gRetireQueue q)(gRetireWrite q mod kRetireQueueSize := Some h),
                  gRetireWrite := (gRetireWrite q + 1) mod 2 ^ 64\<rparr>,
                None))"

definition retire_worker :: "'h retire_ring \<Rightarrow> 'h retire_ring" where
  \<comment> \<open>one pass of the worker: \<open>while (r != w) { queue[r % size].reset(); r++; }\<close>, which
      runs \<open>w - r\<close> times on \<open>uint64_t\<close>, then stores \<open>r\<close>\<close>
  "retire_worker q =
     (let r = gRetireRead q; w = gRetireWrite q
      in q\<lparr>gRetireQueue :=
             fold (\<lambda>i slots. slots(((r + i) mod 2 ^ 64) mod kRetireQueueSize := None))
               [0..<u64_sub w r] (gRetireQueue q),
           gRetireRead := w mod 2 ^ 64\<rparr>)"

subsection \<open>One audio period\<close>

datatype SwapRampState = Idle | FadeOut | FadeIn

record 'h audio_loop =
  active :: "'h option" \<comment> \<open>the loop's local \<open>activeChain\<close>\<close>
  shared_active :: "'h option" \<comment> \<open>\<open>gChainState.activeChain\<close>\<close>
  shared_pending :: "'h option" \<comment> \<open>\<open>gChainState.pendingChain\<close>\<close>
  deferredRetire :: "'h option"
  deferredSwap :: "'h option"
  swapNext :: "'h option"
  swapState :: SwapRampState
  chainSwapCount :: nat
  retire :: "'h retire_ring"

definition publish :: "'h \<Rightarrow> 'h audio_loop \<Rightarrow> 'h audio_loop" where
  \<comment> \<open>the control thread's \<open>atomic_store(&pendingChain, chain)\<close>: the cell's old pointer is dropped\<close>
  "publish h s = s\<lparr>shared_pending := Some h\<rparr>"

definition exchange_pending :: "'h list \<Rightarrow> 'h audio_loop \<Rightarrow> 'h option \<times> 'h audio_loop" where
  \<comment> \<open>\<open>atomic_exchange(&pendingChain, {})\<close>, after the stores the control thread did since
      the audio thread's previous atomic operation\<close>
  "exchange_pending stores s =
     (let s' = fold publish stores s in (shared_pending s', s'\<lparr>shared_pending := None\<rparr>))"

fun coalesce :: "'h \<Rightarrow> 'h list list \<Rightarrow> 'h audio_loop \<Rightarrow> 'h \<times> 'h list list \<times> 'h audio_loop" where
  \<comment> \<open>the loop \<open>while (true) { newer = exchange; if (!newer) break; pending = newer; }\<close>;
      the list gives the control thread's stores before each exchange, and none after it ends\<close>
  "coalesce pending [] s =
     (case exchange_pending [] s of
        (None, s') \<Rightarrow> (pending, [], s')
      | (Some newer, s') \<Rightarrow> (newer, [], s'))"
| "coalesce pending (stores # later) s =
     (case exchange_pending stores s of
        (None, s') \<Rightarrow> (pending, later, s')
      | (Some newer, s') \<Rightarrow> coalesce newer later s')"

definition next_stores :: "'h list list \<Rightarrow> 'h list \<times> 'h list list" where
  "next_stores sched = (case sched of [] \<Rightarrow> ([], []) | x # xs \<Rightarrow> (x, xs))"

definition pick_up :: "'h list list \<Rightarrow> 'h audio_loop \<Rightarrow> 'h option \<times> 'h list list \<times> 'h audio_loop" where
  \<comment> \<open>the pending pointer in hand after the pick-up and the coalescing loop\<close>
  "pick_up sched s =
     (case next_stores sched of
        (stores, later) \<Rightarrow>
          (case exchange_pending stores s of
             (newer, s1) \<Rightarrow>
               (let (pending, s2) =
                      (case deferredSwap s1 of
                         Some d \<Rightarrow>
                           (case newer of
                              Some n \<Rightarrow> (Some n, s1\<lparr>deferredSwap := Some n\<rparr>)
                            | None \<Rightarrow> (Some d, s1))
                       | None \<Rightarrow> (newer, s1))
                in case pending of
                     None \<Rightarrow> (None, later, s2)
                   | Some p \<Rightarrow>
                       (case coalesce p later s2 of
                          (p', later', s3) \<Rightarrow> (Some p', later', s3)))))"

definition install :: "'h option \<Rightarrow> 'h audio_loop \<Rightarrow> 'h audio_loop" where
  \<comment> \<open>the swap proper: store the new chain, count it, hand the old one to retirement\<close>
  "install new s =
     (let old = active s;
          s1 = s\<lparr>active := new, shared_active := new,
                 chainSwapCount := (chainSwapCount s + 1) mod 2 ^ 64\<rparr>
      in case retireChainFromAudioThread (retire s1) old of
           (ok, q, held) \<Rightarrow> s1\<lparr>deferredRetire := held, retire := q\<rparr>)"

definition swap_request :: "nat \<Rightarrow> bool \<Rightarrow> 'h \<Rightarrow> 'h audio_loop \<Rightarrow> 'h audio_loop" where
  \<comment> \<open>the block \<open>if (pending) { ... }\<close> before the chain is run\<close>
  "swap_request swapRampSamples passthrough p s =
     (let canSwapNow = (active s = None
                        \<or> (deferredRetire s = None \<and> retireQueueHasSpace (retire s)))
      in if \<not> canSwapNow then s\<lparr>deferredSwap := Some p\<rparr>
         else
           (let s1 = s\<lparr>deferredSwap := None\<rparr>
            in if \<not> passthrough \<and> swapRampSamples > 0 \<and> active s1 \<noteq> None
               then s1\<lparr>swapNext := Some p,
                       swapState := (if swapState s1 = Idle then FadeOut else swapState s1)\<rparr>
               else install (Some p) s1))"

definition ramp_step :: "nat \<Rightarrow> bool \<Rightarrow> 'h audio_loop \<Rightarrow> 'h audio_loop" where
  \<comment> \<open>the block after the chain has run (the fades on the samples are not followed here)\<close>
  "ramp_step swapRampSamples passthrough s =
     (if \<not> passthrough \<and> swapRampSamples > 0
      then
        (case swapState s of
           FadeOut \<Rightarrow>
             (case swapNext s of
                None \<Rightarrow> s
              | Some nx \<Rightarrow>
                  if deferredRetire s \<noteq> None \<or> \<not> retireQueueHasSpace (retire s)
                  then s\<lparr>deferredSwap := Some nx, swapNext := None, swapState := Idle\<rparr>
                  else (install (Some nx) (s\<lparr>swapNext := None\<rparr>))\<lparr>swapState := FadeIn\<rparr>)
         | FadeIn \<Rightarrow> s\<lparr>swapState := Idle\<rparr>
         | Idle \<Rightarrow> s)
      else s)"

definition audio_period ::
    "nat \<Rightarrow> bool \<Rightarrow> 'h list list \<Rightarrow> 'h audio_loop \<Rightarrow> 'h option \<times> 'h audio_loop" where
  \<comment> \<open>one pass of the loop with a full period read: the chain that processes the block
      (\<open>None\<close>: the input is copied through) and the state after the period; the control
      thread's stores that come after the last exchange are in the cell at the end\<close>
  "audio_period swapRampSamples passthrough sched s =
     (let s0 = (case retireChainFromAudioThread (retire s) (deferredRetire s) of
                  (ok, q, held) \<Rightarrow> s\<lparr>deferredRetire := held, retire := q\<rparr>)
      in case pick_up sched s0 of
           (pending, later, s1) \<Rightarrow>
             (let s2 = (case pending of
                          None \<Rightarrow> s1
                        | Some p \<Rightarrow> swap_request swapRampSamples passthrough p s1);
                  processed = (if \<not> passthrough then active s2 else None);
                  s3 = ramp_step swapRampSamples passthrough s2
              in (processed, fold publish (concat later) s3)))"

definition handles_held :: "'h audio_loop \<Rightarrow> 'h set" where
  \<comment> \<open>every chain some pointer of the swap state refers to\<close>
  "handles_held s =
     set_option (active s) \<union> set_option (shared_active s) \<union> set_option (shared_pending s)
     \<union> set_option (deferredRetire s) \<union> set_option (deferredSwap s) \<union> set_option (swapNext s)
     \<union> (\<Union>i<kRetireQueueSize. set_option (gRetireQueue (retire s) i))"

definition retired :: "'h audio_loop \<Rightarrow> 'h set" where
  \<comment> \<open>the chains handed to the retirement ring or waiting to be\<close>
  "retired s =
     set_option (deferredRetire s) \<union> (\<Union>i<kRetireQueueSize. set_option (gRetireQueue (retire s) i))"

section \<open>Example inputs\<close>

definition example_node :: "string \<Rightarrow> string \<Rightarrow> NodeSpec" where
  "example_node i t = NodeSpec_default\<lparr>node_id := i, node_type := t\<rparr>"

definition example_spec :: ChainSpec where
  \<comment> \<open>input, amp, cab, output: the amp and the cab have no asset\<close>
  "example_spec =
     \<lparr>version = 1, sampleRate = 48000,
      chain = [example_node ''input'' ''input'', example_node ''amp1'' ''nam_model'',
               example_node ''cab1'' ''ir_convolver'', example_node ''output'' ''output'']\<rparr>"

definition legacy_default_spec :: ChainSpec where
  \<comment> \<open>the chain \<open>parseLegacy\<close> makes of an object with no field\<close>
  "legacy_default_spec =
     \<lparr>version = 1, sampleRate = 48000,
      chain = [\<lparr>node_id = ''input'', node_type = ''input'', category = ''utility'',
                enabled = True, params = JObject [], asset = None\<rparr>,
               \<lparr>node_id = ''amp1'', node_type = ''nam_model'', category = ''amp'',
                enabled = True, params = JObject [], asset = None\<rparr>,
               \<lparr>node_id = ''cab1'', node_type = ''ir_convolver'', category = ''cab'',
                enabled = True, params = JObject [], asset = None\<rparr>,
               \<lparr>node_id = ''output'', node_type = ''output'', category = ''utility'',
                enabled = True, params = JObject [], asset = None\<rparr>]\<rparr>"

definition example_gain_node :: "string \<Rightarrow> NodeSpec" where
  "example_gain_node t =
     \<lparr>node_id = ''n1'', node_type = t, category = [], enabled = True,
      params = JObject [(''levelDb'', JFloat 6), (''outputGainDb'', JFloat 30)], asset = None\<rparr>"

subsection \<open>Nodes that pass an overflow tail through\<close>

fun tail_safe :: "nat \<Rightarrow> INode \<Rightarrow> bool" where
  \<comment> \<open>the node clamps its block to at most \<open>B\<close> frames and copies the rest, or is disabled\<close>
  "tail_safe B (NamModel nd) = (nam_maxFrames nd \<le> B)"
| "tail_safe B (IrConvolver nd) = (ir_maxFrames nd \<le> B)"
| "tail_safe B (Passthrough nd) = (\<not> std_enabled (pt_std nd))"
| "tail_safe B (Input nd) = (\<not> std_enabled (in_std nd))"
| "tail_safe B (Output nd) = (\<not> std_enabled (on_std nd))"
| "tail_safe B (Overdrive nd) = (\<not> std_enabled (od_std nd))"

fun process_calls :: "rt_cells \<Rightarrow> INode \<Rightarrow> (real list \<times> real list \<times> nat) list \<Rightarrow> INode" where
  \<comment> \<open>the node after a sequence of \<open>process(in, out, n)\<close> calls\<close>
  "process_calls cs nd [] = nd"
| "process_calls cs nd ((inp, out, n) # calls) =
     process_calls cs (fst (INode_process cs nd inp out n)) calls"

definition example_env :: build_env where
  \<comment> \<open>an environment with no model and no audio file to load\<close>
  "example_env =
     \<lparr>get_dsp = (\<lambda>p. Inl ''no such model''), sf_open = (\<lambda>p. Inl ''no such file''),
      ALSA_IR_MAX_SAMPLES = None, ALSA_NODE_TIMING = None, fftw_ok = True\<rparr>"

definition example_ctx :: "nat \<Rightarrow> ProcessContext" where
  "example_ctx B = \<lparr>ctx_sampleRate = 48000, maxBlockFrames = B, inputTrimDb = False, inputTrimLin = False\<rparr>"

definition example_cells :: rt_cells where
  "example_cells = \<lparr>cell_inputTrimDb = 0, cell_inputTrimLin = 1\<rparr>"

definition disabled_amp :: NodeSpec where
  "disabled_amp = (example_node ''amp1'' ''nam_model'')\<lparr>enabled := False\<rparr>"

definition loud_output :: NodeSpec where
  \<comment> \<open>an enabled output node with 20 dB of level\<close>
  "loud_output = (example_node ''out'' ''output'')\<lparr>params := JObject [(''levelDb'', JInt 20)]\<rparr>"

definition loud_output_node :: INode where
  "loud_output_node =
     Output \<lparr>on_id = ''out'', on_type = ''output'',
             on_std = \<lparr>std_enabled = True, levelDb = 20, mix = 1, levelLin = 10,
                       mixWet = 1, mixDry = 0\<rparr>\<rparr>"

subsection \<open>The chain as a composition of its nodes\<close>

definition node_samples :: "rt_cells \<Rightarrow> INode \<Rightarrow> real list \<Rightarrow> real list" where
  \<comment> \<open>the block a node makes of a block, with a fresh output buffer of the same length\<close>
  "node_samples cs nd xs =
     take (length xs) (snd (INode_process cs nd xs (replicate (length xs) 0) (length xs)))"

fun pipeline :: "rt_cells \<Rightarrow> INode list \<Rightarrow> real list \<Rightarrow> real list" where
  \<comment> \<open>node 0 on the input, then every node on the block of the node before it\<close>
  "pipeline cs [] xs = xs"
| "pipeline cs (nd # nds) xs = pipeline cs nds (node_samples cs nd xs)"

subsection \<open>The steps of a set\_chain request\<close>

definition set_chain_accepts ::
    "build_env \<Rightarrow> disk_outcome \<Rightarrow> ChainRuntimeState \<Rightarrow> Json \<Rightarrow> ChainSpec \<Rightarrow> BuildChainResult \<Rightarrow> bool" where
  \<comment> \<open>no step of the request reports a failure: the chain field is there, it parses, it
      validates under the engine's sample rate to \<open>validated\<close>, it builds to \<open>built\<close>, and
      \<open>persistChainToDisk\<close> returns true\<close>
  "set_chain_accepts env outcome state req validated built \<longleftrightarrow>
     (case jget req ''chain'' of
        None \<Rightarrow> False
      | Some c \<Rightarrow>
          (case parseChainJson c of
             Inl e \<Rightarrow> False
           | Inr parsed \<Rightarrow>
               validateChainSpec (parsed\<lparr>sampleRate := ctx_sampleRate (ctx state)\<rparr>) = Inr validated
               \<and> fst (buildChain env validated (ctx state) (cells state)) = Inr built
               \<and> (outcome = DiskOk \<or> outcome = CloseFails)))"

definition boot_chain :: SignalChain where
  \<comment> \<open>the chain built of \<open>example_spec\<close>, as the engine builds its boot chain\<close>
  "boot_chain =
     (case fst (buildChain example_env example_spec (example_ctx 4) example_cells) of
        Inr b \<Rightarrow> built_chain b
      | Inl e \<Rightarrow> SignalChain_new example_env example_spec [] (example_ctx 4))"

definition example_state :: ChainRuntimeState where
  \<comment> \<open>the control state after boot: the boot chain is active, nothing is pending\<close>
  "example_state =
     \<lparr>activeChain = Some boot_chain, pendingChain = None, lastSpec = example_spec,
      ctx = example_ctx 4, cells = example_cells,
      configPath = ''/opt/pedal/config/chain.json'', disk = Map.empty\<rparr>"

definition example_set_chain :: Json where
  \<comment> \<open>\<open>{"cmd":"set_chain","chain":{}}\<close>\<close>
  "example_set_chain = JObject [(''cmd'', JString ''set_chain''), (''chain'', JObject [])]"

definition example_get_chain :: Json where
  "example_get_chain = JObject [(''cmd'', JString ''get_chain'')]"

subsection \<open>The overdrive, sample by sample\<close>

fun one_pole :: "real \<Rightarrow> real \<Rightarrow> (nat \<Rightarrow> real) \<Rightarrow> nat \<Rightarrow> real" where
  \<comment> \<open>the output of a one-pole low-pass with coefficient \<open>a\<close> and state \<open>z0\<close> at sample \<open>i\<close>\<close>
  "one_pole a z0 y 0 = z0 + a * (y 0 - z0)"
| "one_pole a z0 y (Suc i) = one_pole a z0 y i + a * (y (Suc i) - one_pole a z0 y i)"

definition spec_softclip :: "real \<Rightarrow> real" where
  \<comment> \<open>the shaper as the specification words it: a hard clamp to \<open>\<plusminus>1\<close>, then the cubic
      \<open>x - x\<^sup>3 / 3\<close> on the clamped value\<close>
  "spec_softclip x = (let c = clampf x (- 1) 1 in c - (1 / 3) * c ^ 3)"

definition hot_overdrive :: NodeSpec where
  \<comment> \<open>an overdrive with \<open>drive = 1\<close>, \<open>tone = 1\<close>, \<open>levelDb = 0\<close>\<close>
  "hot_overdrive =
     (example_node ''od'' ''overdrive'')
       \<lparr>params := JObject [(''drive'', JInt 1), (''tone'', JInt 1), (''levelDb'', JInt 0)]\<rparr>"

definition unit_std :: NodeStandardParams where
  "unit_std = \<lparr>std_enabled = True, levelDb = 0, mix = 1, levelLin = 1, mixWet = 1, mixDry = 0\<rparr>"

definition gain_overdrive :: NodeSpec where
  \<comment> \<open>an overdrive with \<open>drive = 1\<close>, \<open>tone = 1\<close>, \<open>levelDb = 20\<close> and \<open>outputGainDb = 0\<close>\<close>
  "gain_overdrive =
     (example_node ''od'' ''overdrive'')
       \<lparr>params := JObject [(''drive'', JInt 1), (''tone'', JInt 1), (''levelDb'', JInt 20),
                           (''outputGainDb'', JInt 0)]\<rparr>"

definition gain_output :: NodeSpec where
  \<comment> \<open>an output node with the same two gains\<close>
  "gain_output =
     (example_node ''out'' ''output'')
       \<lparr>params := JObject [(''levelDb'', JInt 20), (''outputGainDb'', JInt 0)]\<rparr>"

subsection \<open>What a burst of published chains coalesces to\<close>

fun coalesced :: "'h \<Rightarrow> 'h list list \<Rightarrow> 'h \<times> 'h list list" where
  \<comment> \<open>with a pointer \<open>p\<close> in hand: every further non-empty group of stores replaces it by the
      group's last chain, until an exchange finds the cell empty; the groups after that exchange
      are left over\<close>
  "coalesced p [] = (p, [])"
| "coalesced p (stores # later) = (if stores = [] then (p, later) else coalesced (last stores) later)"

definition cell_after :: "'h list list \<Rightarrow> 'h option" where
  \<comment> \<open>the pending cell once the left-over stores have been made into an empty cell\<close>
  "cell_after leftover = (if concat leftover = [] then None else Some (last (concat leftover)))"

definition enqueue :: "'h \<Rightarrow> 'h retire_ring \<Rightarrow> 'h retire_ring" where
  \<comment> \<open>the ring with one more chain in the slot at the write index\<close>
  "enqueue a q =
     q\<lparr>gRetireQueue := (gRetireQueue q)(gRetireWrite q mod kRetireQueueSize := Some a),
       gRetireWrite := (gRetireWrite q + 1) mod 2 ^ 64\<rparr>"

definition installed :: "'h \<Rightarrow> 'h \<Rightarrow> 'h list list \<Rightarrow> 'h audio_loop \<Rightarrow> 'h audio_loop" where
  \<comment> \<open>the state with \<open>c\<close> installed in place of \<open>a\<close>, \<open>a\<close> retired, one swap counted\<close>
  "installed a c leftover s =
     s\<lparr>active := Some c, shared_active := Some c, shared_pending := cell_after leftover,
       deferredRetire := None, deferredSwap := None,
       chainSwapCount := (chainSwapCount s + 1) mod 2 ^ 64,
       retire := enqueue a (retire s)\<rparr>"

definition initial_loop :: "nat \<Rightarrow> nat audio_loop" where
  \<comment> \<open>the audio loop at its start, with chain \<open>a\<close> active\<close>
  "initial_loop a =
     \<lparr>active = Some a, shared_active = Some a, shared_pending = None,
      deferredRetire = None, deferredSwap = None, swapNext = None,
      swapState = Idle, chainSwapCount = 0,
      retire = \<lparr>gRetireQueue = (\<lambda>i. None), gRetireWrite = 0, gRetireRead = 0,
                gRetireQueueFull = 0\<rparr>\<rparr>"

subsection \<open>The full spectrum of a real block\<close>

definition dft :: "nat \<Rightarrow> real list \<Rightarrow> nat \<Rightarrow> complex" where
  \<comment> \<open>bin \<open>b\<close> of the unnormalised discrete Fourier transform of \<open>N\<close> real samples\<close>
  "dft N x b = (\<Sum>n<N. complex_of_real (x ! n) * cis (- (2 * pi * real b * real n / real N)))"

subsection \<open>Feeding blocks to a convolver\<close>

definition unit_impulse :: "nat \<Rightarrow> real list" where
  \<comment> \<open>the block \<open>(1, 0, 0, \<dots>)\<close> of \<open>B\<close> samples\<close>
  "unit_impulse B = map (\<lambda>i. if i = 0 then 1 else 0) [0..<B]"

fun feed :: "FFTConvolverPartitioned \<Rightarrow> real list list \<Rightarrow> (bool \<times> real list) list" where
  \<comment> \<open>one \<open>processBlock\<close> call for each block, each with an output buffer of the block's
      length: the results and the output blocks\<close>
  "feed c [] = []"
| "feed c (blk # blks) =
     (case processBlock c blk (replicate (length blk) 0) (int (length blk)) of
        (ok, c', out) \<Rightarrow> (ok, out) # feed c' blks)"

definition ir_tin :: "real list \<Rightarrow> nat \<Rightarrow> nat \<Rightarrow> real list" where
  \<comment> \<open>the time-domain buffer \<open>init\<close> transforms for partition \<open>k\<close>\<close>
  "ir_tin ir B k =
     write_n (replicate (2 * B) 0) (min (k * B + B) (length ir) - k * B) (\<lambda>i. ir ! (k * B + i))"

definition conv_inv :: "real list \<Rightarrow> nat \<Rightarrow> nat \<Rightarrow> nat \<Rightarrow> FFTConvolverPartitioned \<Rightarrow> bool" where
  \<comment> \<open>the convolver of impulse response \<open>h\<close> after the unit impulse and \<open>j - 1\<close> zero blocks
      (\<open>j = 0\<close>: right after \<open>init\<close>)\<close>
  "conv_inv h B P j c \<longleftrightarrow>
     mBlock c = int B \<and> mFFT c = 2 * int B \<and> mBins c = int B + 1 \<and> mParts c = int P
     \<and> mWrite c = int (j mod P) \<and> mReady c
     \<and> length (mTimeIn c) = 2 * B \<and> length (mFreqY c) = B + 1
     \<and> mOverlap c = replicate B 0
     \<and> mH c = map (\<lambda>k. fftw_r2c (2 * B) (ir_tin h B k)) [0..<P]
     \<and> mX c = (if j = 0 then replicate P (replicate (B + 1) 0)
               else (replicate P (replicate (B + 1) 0))[0 := replicate (B + 1) 1])"

definition num_blocks :: "nat \<Rightarrow> nat \<Rightarrow> nat" where
  \<comment> \<open>\<open>\<lceil>L / B\<rceil>\<close>, the number of blocks that hold \<open>L\<close> samples\<close>
  "num_blocks L B = (L + B - 1) div B"

section \<open>Verification: chain schema\<close>

lemma to_int32_id: "0 \<le> v \<Longrightarrow> v < 2 ^ 31 \<Longrightarrow> to_int32 v = v"
  by (simp add: to_int32_def)

lemma first_index_Some_iff:
  "first_index P xs = Some k \<longleftrightarrow> k < length xs \<and> P (xs ! k) \<and> (\<forall>j<k. \<not> P (xs ! j))"
proof (induction xs arbitrary: k)
  case Nil
  then show ?case by simp
next
  case (Cons x xs)
  show ?case
  proof (cases "P x")
    case True
    then show ?thesis by (cases k) auto
  next
    case False
    show ?thesis
    proof (cases k)
      case 0
      with False show ?thesis by simp
    next
      case (Suc m)
      have "(\<forall>j<Suc m. \<not> P ((x # xs) ! j)) \<longleftrightarrow> (\<forall>j<m. \<not> P (xs ! j))"
        using False by (auto simp: less_Suc_eq_0_disj)
      with False Suc Cons.IH [of m] show ?thesis by auto
    qed
  qed
qed

lemma first_index_None_iff: "first_index P xs = None \<longleftrightarrow> (\<forall>x\<in>set xs. \<not> P x)"
  by (induction xs) auto

lemma first_index_map: "first_index P (map f xs) = first_index (\<lambda>x. P (f x)) xs"
  by (induction xs) auto

lemma check_ids_None_iff:
  "check_ids ns ids = None \<longleftrightarrow>
     (\<forall>n\<in>set ns. node_id n \<noteq> [] \<and> node_id n \<notin> ids \<and> node_type n \<noteq> []) \<and> distinct (map node_id ns)"
proof (induction ns arbitrary: ids)
  case Nil
  then show ?case by simp
next
  case (Cons n ns)
  show ?case
    unfolding check_ids.simps using Cons.IH [of "insert (node_id n) ids"]
    by (auto simp: image_iff)
qed

lemma hasType_iff: "hasType ns t \<longleftrightarrow> (\<exists>n\<in>set ns. node_type n = t)"
  by (induction ns) auto

lemma hasType_first_index:
  "hasType ns t \<longleftrightarrow> first_index (\<lambda>n. node_type n = t) ns \<noteq> None"
  by (simp add: hasType_iff first_index_None_iff)

lemma scan_idx_first:
  "i + length ns < 2 ^ 31 \<Longrightarrow>
   scan_idx ns i a c =
     (pick_idx a i (first_index (\<lambda>n. node_type n = ''nam_model'') ns),
      pick_idx c i (first_index (\<lambda>n. node_type n = ''ir_convolver'') ns))"
proof (induction ns arbitrary: i a c)
  case Nil
  then show ?case by (simp add: pick_idx_def)
next
  case (Cons n ns)
  have i: "to_int32 (int i) = int i"
    using Cons.prems by (intro to_int32_id) auto
  have "Suc i + length ns < 2 ^ 31" using Cons.prems by simp
  note IH = Cons.IH [OF this]
  show ?case
    by (simp add: IH i Let_def pick_idx_def split: option.splits)
qed

lemma validate_Inr_same: "validateChainSpec spec = Inr spec' \<Longrightarrow> spec' = spec"
  by (auto simp: validateChainSpec_def split: if_splits option.splits prod.splits)

lemma validate_Inr_iff:
  assumes len: "length (chain spec) < 2 ^ 31"
  shows "validateChainSpec spec = Inr spec \<longleftrightarrow>
     version spec = 1 \<and> 2 \<le> length (chain spec)
     \<and> (\<forall>n\<in>set (chain spec). node_id n \<noteq> [] \<and> node_type n \<noteq> [])
     \<and> distinct (map node_id (chain spec))
     \<and> spec_order_ok (map node_type (chain spec))"
proof -
  let ?amp = "first_index (\<lambda>n. node_type n = ''nam_model'') (chain spec)"
  let ?cab = "first_index (\<lambda>n. node_type n = ''ir_convolver'') (chain spec)"
  have scan: "scan_idx (chain spec) 0 (- 1) (- 1) = (pick_idx (- 1) 0 ?amp, pick_idx (- 1) 0 ?cab)"
    using len by (intro scan_idx_first) simp
  have ids: "check_ids (chain spec) {} = None \<longleftrightarrow>
      (\<forall>n\<in>set (chain spec). node_id n \<noteq> [] \<and> node_type n \<noteq> []) \<and> distinct (map node_id (chain spec))"
    by (simp add: check_ids_None_iff)
  have ord: "spec_order_ok (map node_type (chain spec)) \<longleftrightarrow>
      chain spec \<noteq> [] \<and> node_type (hd (chain spec)) = ''input''
      \<and> node_type (last (chain spec)) = ''output''
      \<and> (case (?amp, ?cab) of (Some a, Some c) \<Rightarrow> a < c | _ \<Rightarrow> False)"
    by (auto simp: spec_order_ok_def first_index_map hd_map last_map)
  show ?thesis
  proof (cases "check_ids (chain spec) {}")
    case (Some e)
    then have "validateChainSpec spec \<noteq> Inr spec"
      by (simp add: validateChainSpec_def)
    moreover from Some ids
    have "\<not> ((\<forall>n\<in>set (chain spec). node_id n \<noteq> [] \<and> node_type n \<noteq> [])
            \<and> distinct (map node_id (chain spec)))"
      by simp
    ultimately show ?thesis by blast
  next
    case None
    with ids have ok: "(\<forall>n\<in>set (chain spec). node_id n \<noteq> [] \<and> node_type n \<noteq> [])"
      "distinct (map node_id (chain spec))" by simp_all
    show ?thesis
    proof (cases "version spec = 1 \<and> 2 \<le> length (chain spec)")
      case False
      then show ?thesis by (auto simp: validateChainSpec_def)
    next
      case True
      then have ne: "chain spec \<noteq> []" by auto
      have "validateChainSpec spec = Inr spec \<longleftrightarrow> spec_order_ok (map node_type (chain spec))"
        using True None unfolding ord
        by (auto simp: validateChainSpec_def scan pick_idx_def hasType_first_index ne
            split: option.splits)
      with True ok show ?thesis by simp
    qed
  qed
qed


lemma parseNode_asset_cases:
  "(\<exists>e. parseNode_asset jn n = Inl e) \<and> ill_typed jn ''asset'' (\<lambda>a. is_object a \<and> has_string a ''path'')
   \<or> (\<exists>n'. parseNode_asset jn n = Inr n' \<and> node_id n' = node_id n \<and> node_type n' = node_type n)
      \<and> \<not> ill_typed jn ''asset'' (\<lambda>a. is_object a \<and> has_string a ''path'')"
  by (auto simp: parseNode_asset_def ill_typed_def has_string_def
      split: option.splits Json.splits)

lemma parseNode_params_cases:
  "(\<exists>e. parseNode_params jn n = Inl e)
     \<and> (ill_typed jn ''params'' is_object
         \<or> ill_typed jn ''asset'' (\<lambda>a. is_object a \<and> has_string a ''path''))
   \<or> (\<exists>n'. parseNode_params jn n = Inr n' \<and> node_id n' = node_id n \<and> node_type n' = node_type n)
      \<and> \<not> ill_typed jn ''params'' is_object
      \<and> \<not> ill_typed jn ''asset'' (\<lambda>a. is_object a \<and> has_string a ''path'')"
proof (cases "jget jn ''params''")
  case None
  with parseNode_asset_cases [of jn n] show ?thesis
    by (auto simp: parseNode_params_def ill_typed_def)
next
  case (Some p)
  show ?thesis
  proof (cases "is_object p")
    case True
    with Some parseNode_asset_cases [of jn "n\<lparr>params := p\<rparr>"] show ?thesis
      by (auto simp: parseNode_params_def ill_typed_def)
  next
    case False
    with Some show ?thesis by (auto simp: parseNode_params_def ill_typed_def)
  qed
qed

lemma parseNode_enabled_cases:
  "(\<exists>e. parseNode_enabled jn n = Inl e)
     \<and> (ill_typed jn ''enabled'' is_boolean \<or> ill_typed jn ''params'' is_object
         \<or> ill_typed jn ''asset'' (\<lambda>a. is_object a \<and> has_string a ''path''))
   \<or> (\<exists>n'. parseNode_enabled jn n = Inr n' \<and> node_id n' = node_id n \<and> node_type n' = node_type n)
      \<and> \<not> ill_typed jn ''enabled'' is_boolean
      \<and> \<not> ill_typed jn ''params'' is_object
      \<and> \<not> ill_typed jn ''asset'' (\<lambda>a. is_object a \<and> has_string a ''path'')"
proof (cases "jget jn ''enabled''")
  case None
  with parseNode_params_cases [of jn n] show ?thesis
    by (auto simp: parseNode_enabled_def ill_typed_def)
next
  case (Some b)
  show ?thesis
  proof (cases b)
    case (JBool x)
    with Some parseNode_params_cases [of jn "n\<lparr>enabled := x\<rparr>"] show ?thesis
      by (auto simp: parseNode_enabled_def ill_typed_def)
  qed (use Some in \<open>auto simp: parseNode_enabled_def ill_typed_def\<close>)
qed

lemma parseNode_category_cases:
  "(\<exists>e. parseNode_category jn n = Inl e)
     \<and> (ill_typed jn ''category'' is_string
         \<or> ill_typed jn ''enabled'' is_boolean \<or> ill_typed jn ''params'' is_object
         \<or> ill_typed jn ''asset'' (\<lambda>a. is_object a \<and> has_string a ''path''))
   \<or> (\<exists>n'. parseNode_category jn n = Inr n' \<and> node_id n' = node_id n \<and> node_type n' = node_type n)
      \<and> \<not> ill_typed jn ''category'' is_string
      \<and> \<not> ill_typed jn ''enabled'' is_boolean
      \<and> \<not> ill_typed jn ''params'' is_object
      \<and> \<not> ill_typed jn ''asset'' (\<lambda>a. is_object a \<and> has_string a ''path'')"
proof (cases "jget jn ''category''")
  case None
  with parseNode_enabled_cases [of jn n] show ?thesis
    by (auto simp: parseNode_category_def ill_typed_def)
next
  case (Some b)
  show ?thesis
  proof (cases b)
    case (JString x)
    with Some parseNode_enabled_cases [of jn "n\<lparr>category := x\<rparr>"] show ?thesis
      by (auto simp: parseNode_category_def ill_typed_def)
  qed (use Some in \<open>auto simp: parseNode_category_def ill_typed_def\<close>)
qed

lemma parseNode_cases:
  "(\<exists>e. parseNode jn = Inl e) \<and> spec_node_malformed jn
   \<or> (\<exists>n. parseNode jn = Inr n \<and> node_id n = json_id jn \<and> node_type n = json_type jn)
      \<and> \<not> spec_node_malformed jn"
proof (cases "is_object jn \<and> has_string jn ''id'' \<and> has_string jn ''type''")
  case False
  then show ?thesis
    by (auto simp: parseNode_def spec_node_malformed_def getString_def has_string_def
        split: option.splits Json.splits)
next
  case True
  then obtain i t where it: "jget jn ''id'' = Some (JString i)" "jget jn ''type'' = Some (JString t)"
    by (auto simp: has_string_def split: option.splits Json.splits)
  let ?n = "NodeSpec_default\<lparr>node_id := i, node_type := t\<rparr>"
  have p: "parseNode jn = parseNode_category jn ?n"
    using True it by (simp add: parseNode_def getString_def)
  have m: "spec_node_malformed jn \<longleftrightarrow>
        ill_typed jn ''category'' is_string
         \<or> ill_typed jn ''enabled'' is_boolean \<or> ill_typed jn ''params'' is_object
         \<or> ill_typed jn ''asset'' (\<lambda>a. is_object a \<and> has_string a ''path'')"
    using True by (simp add: spec_node_malformed_def)
  have ids: "json_id jn = node_id ?n" "json_type jn = node_type ?n"
    using it by (simp_all add: json_id_def json_type_def)
  show ?thesis
    unfolding p m ids using parseNode_category_cases [of jn ?n] by blast
qed

lemma parseNodes_cases:
  "(\<exists>e. parseNodes jns acc = Inl e) \<and> (\<exists>jn\<in>set jns. spec_node_malformed jn)
   \<or> (\<exists>ns. parseNodes jns acc = Inr (acc @ ns)
          \<and> map node_id ns = map json_id jns \<and> map node_type ns = map json_type jns)
      \<and> \<not> (\<exists>jn\<in>set jns. spec_node_malformed jn)"
proof (induction jns arbitrary: acc)
  case Nil
  then show ?case by simp
next
  case (Cons jn jns)
  from parseNode_cases [of jn] show ?case
  proof (elim disjE conjE exE)
    fix e assume "parseNode jn = Inl e" "spec_node_malformed jn"
    then show ?thesis by simp
  next
    fix n assume n: "parseNode jn = Inr n" "node_id n = json_id jn" "node_type n = json_type jn"
      "\<not> spec_node_malformed jn"
    from Cons.IH [of "acc @ [n]"] show ?thesis
    proof (elim disjE conjE exE)
      fix e assume "parseNodes jns (acc @ [n]) = Inl e" "\<exists>jn\<in>set jns. spec_node_malformed jn"
      with n show ?thesis by simp
    next
      fix ns assume "parseNodes jns (acc @ [n]) = Inr ((acc @ [n]) @ ns)"
        "map node_id ns = map json_id jns" "map node_type ns = map json_type jns"
        "\<not> (\<exists>jn\<in>set jns. spec_node_malformed jn)"
      with n have "parseNodes (jn # jns) acc = Inr (acc @ (n # ns))
          \<and> map node_id (n # ns) = map json_id (jn # jns)
          \<and> map node_type (n # ns) = map json_type (jn # jns)"
        "\<not> (\<exists>j\<in>set (jn # jns). spec_node_malformed j)"
        by simp_all
      then show ?thesis by blast
    qed
  qed
qed


lemma validate_isl_iff: "isl (validateChainSpec spec) \<longleftrightarrow> validateChainSpec spec \<noteq> Inr spec"
  by (cases "validateChainSpec spec") (auto dest: validate_Inr_same)

lemma canonical_rejects_iff:
  assumes shape: "canonical_shape j" and len: "chain_length j < 2 ^ 31"
  shows "isl (parse_and_validate j) \<longleftrightarrow> spec_canonical_rejects j"
proof -
  from shape obtain jns where ch: "jget j ''chain'' = Some (JArray jns)"
    by (auto simp: canonical_shape_def split: option.splits elim: is_array.elims)
  from shape have obj: "is_object j" and cont: "contains j ''version''" "contains j ''chain''"
    using ch by (auto simp: canonical_shape_def contains_def elim: jget.elims)
  have pc: "parseChainJson j = parseCanonicalV1 j"
    using obj cont ch by (simp add: parseChainJson_def)
  from len ch have len': "length jns < 2 ^ 31" by (simp add: chain_length_def)
  show ?thesis
  proof (cases "\<exists>v. jget j ''version'' = Some (JInt v) \<and> to_int32 v = 1")
    case False
    then show ?thesis
      by (auto simp: parse_and_validate_def pc parseCanonicalV1_def spec_canonical_rejects_def
          Let_def split: option.splits Json.splits)
  next
    case True
    then obtain v where v: "jget j ''version'' = Some (JInt v)" "to_int32 v = 1" by blast
    show ?thesis
    proof (cases "ill_typed j ''sampleRate'' (\<lambda>r. case r of JInt x \<Rightarrow> 0 < to_int32 x | _ \<Rightarrow> False)")
      case True
      then show ?thesis using v
        by (auto simp: parse_and_validate_def pc parseCanonicalV1_def spec_canonical_rejects_def
            Let_def ill_typed_def split: option.splits Json.splits)
    next
      case False
      then obtain spec0 where p0: "parseCanonicalV1 j = parseCanonicalV1_chain j spec0"
        and s0: "version spec0 = 1" "chain spec0 = []"
        using v
        by (auto simp: parseCanonicalV1_def Let_def ill_typed_def ChainSpec_default_def
            split: option.splits Json.splits)
      from parseNodes_cases [of jns "[]"] show ?thesis
      proof (elim disjE conjE exE)
        fix e assume "parseNodes jns [] = Inl e" "\<exists>jn\<in>set jns. spec_node_malformed jn"
        then show ?thesis using ch s0
          by (simp add: parse_and_validate_def pc p0 parseCanonicalV1_chain_def
              spec_canonical_rejects_def)
      next
        fix ns assume ns: "parseNodes jns [] = Inr ([] @ ns)"
          "map node_id ns = map json_id jns" "map node_type ns = map json_type jns"
          "\<not> (\<exists>jn\<in>set jns. spec_node_malformed jn)"
        let ?spec = "spec0\<lparr>chain := ns\<rparr>"
        from ns have lens: "length ns = length jns" by (metis length_map)
        have pv: "parse_and_validate j = validateChainSpec ?spec"
          using ch s0 ns by (simp add: parse_and_validate_def pc p0 parseCanonicalV1_chain_def)
        have "length (chain ?spec) < 2 ^ 31" using lens len' by simp
        note vi = validate_Inr_iff [OF this]
        have e1: "(\<forall>n\<in>set ns. node_id n \<noteq> [] \<and> node_type n \<noteq> []) \<longleftrightarrow>
              (\<forall>jn\<in>set jns. json_id jn \<noteq> []) \<and> (\<forall>jn\<in>set jns. json_type jn \<noteq> [])"
        proof -
          have "(\<forall>n\<in>set ns. node_id n \<noteq> []) \<longleftrightarrow> [] \<notin> set (map node_id ns)" by force
          also have "\<dots> \<longleftrightarrow> (\<forall>jn\<in>set jns. json_id jn \<noteq> [])" unfolding ns(2) by force
          finally have a: "(\<forall>n\<in>set ns. node_id n \<noteq> []) \<longleftrightarrow> (\<forall>jn\<in>set jns. json_id jn \<noteq> [])" .
          have "(\<forall>n\<in>set ns. node_type n \<noteq> []) \<longleftrightarrow> [] \<notin> set (map node_type ns)" by force
          also have "\<dots> \<longleftrightarrow> (\<forall>jn\<in>set jns. json_type jn \<noteq> [])" unfolding ns(3) by force
          finally have b: "(\<forall>n\<in>set ns. node_type n \<noteq> []) \<longleftrightarrow> (\<forall>jn\<in>set jns. json_type jn \<noteq> [])" .
          from a b show ?thesis by blast
        qed
        have "isl (parse_and_validate j) \<longleftrightarrow>
            \<not> (2 \<le> length jns \<and> (\<forall>jn\<in>set jns. json_id jn \<noteq> [])
               \<and> (\<forall>jn\<in>set jns. json_type jn \<noteq> [])
               \<and> distinct (map json_id jns) \<and> spec_order_ok (map json_type jns))"
          unfolding pv validate_isl_iff vi using s0 e1 lens ns(2,3) by auto
        also have "\<dots> \<longleftrightarrow> spec_canonical_rejects j"
          using v False ch ns(4) by (auto simp: spec_canonical_rejects_def)
        finally show ?thesis .
      qed
    qed
  qed
qed

lemma legacy_input_Inr:
  "legacy_input j = Inr n \<Longrightarrow> node_id n = ''input'' \<and> node_type n = ''input''"
  by (auto simp: legacy_input_def Let_def split: option.splits if_splits)

lemma legacy_asset_Inr:
  "legacy_asset j k m n = Inr n' \<Longrightarrow> node_id n' = node_id n \<and> node_type n' = node_type n"
  by (auto simp: legacy_asset_def split: option.splits if_splits Json.splits)

lemma legacy_input_isl:
  "isl (legacy_input j) \<longleftrightarrow>
     (case jget j ''audio'' of Some a \<Rightarrow> is_object a \<and> ill_typed a ''inputTrimDb'' is_number
      | None \<Rightarrow> False)"
  by (auto simp: legacy_input_def Let_def ill_typed_def split: option.splits)

lemma legacy_asset_isl:
  "isl (legacy_asset j k m n) \<longleftrightarrow>
     (case jget j ''chain'' of Some c \<Rightarrow> is_object c \<and> ill_typed c k is_string | None \<Rightarrow> False)"
  by (auto simp: legacy_asset_def ill_typed_def split: option.splits Json.splits)

lemma validate_four:
  assumes "node_id a = ''input''" "node_type a = ''input''"
    "node_id b = ''amp1''" "node_type b = ''nam_model''"
    "node_id c = ''cab1''" "node_type c = ''ir_convolver''"
    "node_id d = ''output''" "node_type d = ''output''"
    "version spec = 1"
  shows "validateChainSpec (spec\<lparr>chain := [a, b, c, d]\<rparr>) = Inr (spec\<lparr>chain := [a, b, c, d]\<rparr>)"
  using assms by (simp add: validateChainSpec_def to_int32_def)

lemma legacy_rejects_iff:
  assumes obj: "is_object j" and shape: "\<not> canonical_shape j"
  shows "isl (parse_and_validate j) \<longleftrightarrow> spec_legacy_rejects j"
proof -
  have pc: "parseChainJson j = parseLegacy j"
    using obj shape by (auto simp: parseChainJson_def canonical_shape_def)
  let ?amp = "\<lparr>node_id = ''amp1'', node_type = ''nam_model'', category = ''amp'',
                      enabled = True, params = JObject [], asset = None\<rparr>"
  let ?cab = "\<lparr>node_id = ''cab1'', node_type = ''ir_convolver'', category = ''cab'',
                      enabled = True, params = JObject [], asset = None\<rparr>"
  let ?A = "legacy_asset j ''namModelPath'' ''legacy chain.namModelPath must be string'' ?amp"
  let ?C = "legacy_asset j ''irPath'' ''legacy chain.irPath must be string'' ?cab"
  show ?thesis
  proof (cases "isl (legacy_input j) \<or> isl ?A \<or> isl ?C")
    case True
    then have "isl (parseLegacy j)"
      by (auto simp: parseLegacy_def Let_def isl_def split: sum.splits)
    then have "isl (parse_and_validate j)"
      by (auto simp: parse_and_validate_def pc isl_def)
    moreover from True have "spec_legacy_rejects j"
      unfolding legacy_input_isl legacy_asset_isl spec_legacy_rejects_def
      by (auto split: option.splits)
    ultimately show ?thesis by simp
  next
    case False
    then obtain i a c where r: "legacy_input j = Inr i" "?A = Inr a" "?C = Inr c"
      by (auto simp: isl_def) (metis sum.exhaust)
    from legacy_input_Inr [OF r(1)] legacy_asset_Inr [OF r(2)] legacy_asset_Inr [OF r(3)]
    have "\<not> isl (parse_and_validate j)"
      using r by (simp add: parse_and_validate_def pc parseLegacy_def Let_def validate_four
          legacy_sampleRate_def ChainSpec_default_def split: option.splits Json.splits)
    moreover from False have "\<not> spec_legacy_rejects j"
      unfolding legacy_input_isl legacy_asset_isl spec_legacy_rejects_def
      by (auto split: option.splits)
    ultimately show ?thesis by simp
  qed
qed

text \<open>
  Claim C8 (amended). Parsing followed by validation fails exactly when the input is no
  object; or it has the canonical shape (a \<open>version\<close> key and an array \<open>chain\<close>) and its
  version is no integer or not 1 once read into an \<open>int\<close>, its \<open>sampleRate\<close> is present
  and no positive integer, a node is malformed (no object, \<open>id\<close> or \<open>type\<close> missing or
  no string, an optional field of the wrong type), there are fewer than two nodes, an id
  or a type is empty, an id is repeated, or the ordering invariants fail; or it has any
  other shape, is read as a legacy description, and one of \<open>audio.inputTrimDb\<close>,
  \<open>chain.namModelPath\<close>, \<open>chain.irPath\<close> is present with the wrong type. An object
  without \<open>version\<close> is therefore accepted unless a legacy field is ill-typed.
\<close>

theorem parse_and_validate_rejects_iff:
  assumes "chain_length j < 2 ^ 31"
  shows "isl (parse_and_validate j) \<longleftrightarrow> spec_rejects j"
proof (cases "is_object j")
  case False
  then show ?thesis
    by (simp add: parse_and_validate_def parseChainJson_def spec_rejects_def)
next
  case True
  then show ?thesis
    using canonical_rejects_iff [OF _ assms] legacy_rejects_iff [OF True]
    by (auto simp: spec_rejects_def)
qed

text \<open>
  Claim C2. Whenever \<open>validateChainSpec\<close> returns a chain, that chain has version 1 and at
  least two nodes, starts with an \<open>input\<close> node and ends with an \<open>output\<close> node, holds
  a \<open>nam_model\<close> and an \<open>ir_convolver\<close> node with the first \<open>nam_model\<close> strictly before
  the first \<open>ir_convolver\<close>, and its ids are non-empty and pairwise distinct. The index
  scan casts \<open>size_t\<close> to \<open>int\<close>, so the chain is taken shorter than \<open>2 ^ 31\<close> nodes.
\<close>

theorem validateChainSpec_invariants:
  assumes ok: "validateChainSpec spec = Inr spec'"
    and len: "length (chain spec) < 2 ^ 31"
  shows "version spec' = 1
       \<and> length (chain spec') \<ge> 2
       \<and> node_type (hd (chain spec')) = ''input''
       \<and> node_type (last (chain spec')) = ''output''
       \<and> (\<exists>a c. first_index (\<lambda>n. node_type n = ''nam_model'') (chain spec') = Some a
              \<and> first_index (\<lambda>n. node_type n = ''ir_convolver'') (chain spec') = Some c
              \<and> a < c)
       \<and> (\<forall>n\<in>set (chain spec'). node_id n \<noteq> [])
       \<and> distinct (map node_id (chain spec'))"
proof -
  have same: "spec' = spec" using ok by (rule validate_Inr_same)
  have "validateChainSpec spec = Inr spec" using ok same by simp
  then have "version spec = 1 \<and> 2 \<le> length (chain spec)
     \<and> (\<forall>n\<in>set (chain spec). node_id n \<noteq> [] \<and> node_type n \<noteq> [])
     \<and> distinct (map node_id (chain spec))
     \<and> spec_order_ok (map node_type (chain spec))"
    using validate_Inr_iff [OF len] by blast
  then show ?thesis
    unfolding same
    by (auto simp: spec_order_ok_def first_index_map hd_map last_map split: option.splits)
qed

lemma example_spec_valid: "validateChainSpec example_spec = Inr example_spec"
  by (simp add: validateChainSpec_def example_spec_def example_node_def NodeSpec_default_def
      to_int32_def)

text \<open>
  Witness for C2: the four-node chain input, amp, cab, output is accepted and has every
  property listed.
\<close>

theorem validateChainSpec_invariants_witness:
  "validateChainSpec example_spec = Inr example_spec
   \<and> length (chain example_spec) < 2 ^ 31
   \<and> version example_spec = 1
   \<and> length (chain example_spec) \<ge> 2
   \<and> node_type (hd (chain example_spec)) = ''input''
   \<and> node_type (last (chain example_spec)) = ''output''
   \<and> (\<exists>a c. first_index (\<lambda>n. node_type n = ''nam_model'') (chain example_spec) = Some a
          \<and> first_index (\<lambda>n. node_type n = ''ir_convolver'') (chain example_spec) = Some c
          \<and> a < c)
   \<and> [] \<notin> set (map node_id (chain example_spec))
   \<and> distinct (map node_id (chain example_spec))"
proof -
  have len: "length (chain example_spec) < 2 ^ 31" by (simp add: example_spec_def)
  from validateChainSpec_invariants [OF example_spec_valid len] example_spec_valid len
  show ?thesis by force
qed

text \<open>
  Counterexample to C8 as stated: the object with no field at all has no \<open>version\<close>, yet
  it is parsed as a legacy description and accepted.
\<close>

theorem parse_and_validate_missing_version_counterexample:
  "\<not> contains (JObject []) ''version''
   \<and> parse_and_validate (JObject []) = Inr legacy_default_spec"
  by (simp add: contains_def parse_and_validate_def parseChainJson_def parseLegacy_def
      legacy_sampleRate_def legacy_input_def legacy_asset_def ChainSpec_default_def
      legacy_default_spec_def validateChainSpec_def to_int32_def)

text \<open>
  Witness for C8 (amended): the empty object satisfies the length bound and is not rejected.
\<close>

theorem parse_and_validate_rejects_iff_witness:
  "chain_length (JObject []) < 2 ^ 31
   \<and> (isl (parse_and_validate (JObject [])) \<longleftrightarrow> spec_rejects (JObject []))
   \<and> \<not> spec_rejects (JObject [])"
  using parse_and_validate_rejects_iff [of "JObject []"]
  by (simp add: chain_length_def spec_rejects_def canonical_shape_def contains_def
      spec_legacy_rejects_def)

section \<open>Verification: standard parameters\<close>

lemma parseStd_outputGainDb:
  assumes "json_number (params spec) ''outputGainDb'' = Some g"
  shows "levelDb (parseStd spec) = clampf g (- 48) 24"
    and "levelLin (parseStd spec) = dbToLin (clampf g (- 48) 24)"
  using assms by (simp_all add: parseStd_def Let_def split: option.splits)

lemma bypass_node_std:
  "INode_std (node (bypass_node spec t w)) = (parseStd spec)\<lparr>std_enabled := False\<rparr>"
  by (simp add: bypass_node_def)

lemma NamModelNode_new_std [simp]:
  "nam_std (NamModelNode_new i sp m rate maxF preDb postDb inLim sc scTanh useLevel) = sp"
  by (simp add: NamModelNode_new_def Let_def)

lemma IrConvolverNode_new_std [simp]: "ir_std (IrConvolverNode_new i sp c maxF) = sp"
  by (simp add: IrConvolverNode_new_def)

lemma OverdriveNode_new_std [simp]: "od_std (OverdriveNode_new i sp drv tn odb) = sp"
  by (simp add: OverdriveNode_new_def Let_def)

lemma build_nam_std:
  assumes "build_nam env spec pc = Inr r"
  shows "levelDb (INode_std (node r)) = levelDb (parseStd spec)
     \<and> levelLin (INode_std (node r)) = levelLin (parseStd spec)"
proof (cases "enabled spec")
  case False
  with assms have "r = bypass_node spec ''nam_model'' []" by (simp add: build_nam_def)
  then show ?thesis by (simp add: bypass_node_std)
next
  case True
  show ?thesis
  proof (cases "asset_path spec")
    case None
    with True assms have "r = bypass_node spec ''nam_model'' ''nam_model missing asset.path (bypassing)''"
      by (simp add: build_nam_def)
    then show ?thesis by (simp add: bypass_node_std)
  next
    case (Some p)
    from assms True Some obtain m where m: "get_dsp env p = Inr (Some m)"
      by (auto simp: build_nam_def split: sum.splits option.splits)
    from assms True Some m obtain nd w where "r = \<lparr>node = NamModel nd, warning = w\<rparr>"
      and "nam_std nd = parseStd spec"
      by (simp add: build_nam_def Let_def) (metis NamModelNode_new_std)
    then show ?thesis by simp
  qed
qed

lemma build_ir_std:
  assumes "build_ir env spec pc = Inr r"
  shows "levelDb (INode_std (node r)) = levelDb (parseStd spec)
     \<and> levelLin (INode_std (node r)) = levelLin (parseStd spec)"
proof (cases "enabled spec")
  case False
  with assms have "r = bypass_node spec ''ir_convolver'' []" by (simp add: build_ir_def)
  then show ?thesis by (simp add: bypass_node_std)
next
  case True
  show ?thesis
  proof (cases "asset_path spec")
    case None
    with True assms have "r = bypass_node spec ''ir_convolver'' ''ir_convolver missing asset.path (bypassing)''"
      by (simp add: build_ir_def)
    then show ?thesis by (simp add: bypass_node_std)
  next
    case (Some p)
    from assms True Some obtain nd w where "r = \<lparr>node = IrConvolver nd, warning = w\<rparr>"
      and "ir_std nd = parseStd spec"
      by (auto simp: build_ir_def split: sum.splits if_splits prod.splits)
    then show ?thesis by simp
  qed
qed

lemma buildNode_std:
  assumes "buildNode env spec pc cs = (Inr r, cs')"
  shows "levelDb (INode_std (node r)) = levelDb (parseStd spec)
     \<and> levelLin (INode_std (node r)) = levelLin (parseStd spec)"
proof -
  consider (inp) "node_type spec = ''input''" | (out) "node_type spec = ''output''"
    | (od) "node_type spec = ''overdrive''" | (nam) "node_type spec = ''nam_model''"
    | (ir) "node_type spec = ''ir_convolver''"
    | (other) "node_type spec \<notin> {''input'', ''output'', ''overdrive'', ''nam_model'', ''ir_convolver''}"
    by auto
  then show ?thesis
  proof cases
    case inp
    with assms show ?thesis by (auto simp: buildNode_def build_input_def Let_def)
  next
    case out
    with assms show ?thesis by (auto simp: buildNode_def)
  next
    case od
    with assms show ?thesis by (auto simp: buildNode_def build_overdrive_def Let_def)
  next
    case nam
    with assms have "build_nam env spec pc = Inr r" by (simp add: buildNode_def)
    then show ?thesis by (rule build_nam_std)
  next
    case ir
    with assms have "build_ir env spec pc = Inr r" by (simp add: buildNode_def)
    then show ?thesis by (rule build_ir_std)
  next
    case other
    with assms show ?thesis by (simp add: buildNode_def)
  qed
qed

lemma manifest_lacks_outputGainDb: "''outputGainDb'' \<notin> set (json_strings nodeTypeManifest)"
  by (simp add: nodeTypeManifest_def manifest_bool_def manifest_float_def)

text \<open>
  When the params of a node specification hold a number under the key \<open>outputGainDb\<close>,
  the standard parameters the builder parses take it as the level, clamped to
  \<open>[-48, 24]\<close> dB, whatever \<open>levelDb\<close> says; every node \<open>buildNode\<close> returns for that
  specification, of any type, carries that level in its standard parameters; and the key
  occurs nowhere in the type manifest. The standard level is the whole post gain of an
  input, output, amp or cabinet node; an overdrive has a second factor, looked at below.
\<close>

lemma buildNode_outputGainDb_std:
  assumes "json_number (params spec) ''outputGainDb'' = Some g"
  shows "levelDb (parseStd spec) = clampf g (- 48) 24
     \<and> levelLin (parseStd spec) = dbToLin (clampf g (- 48) 24)
     \<and> (\<forall>env pc cs r cs'. buildNode env spec pc cs = (Inr r, cs') \<longrightarrow>
           levelDb (INode_std (node r)) = clampf g (- 48) 24
           \<and> levelLin (INode_std (node r)) = dbToLin (clampf g (- 48) 24))
     \<and> ''outputGainDb'' \<notin> set (json_strings nodeTypeManifest)"
proof -
  note p = parseStd_outputGainDb [OF assms]
  have "levelDb (INode_std (node r)) = clampf g (- 48) 24
           \<and> levelLin (INode_std (node r)) = dbToLin (clampf g (- 48) 24)"
    if "buildNode env spec pc cs = (Inr r, cs')" for env pc cs r cs'
    using buildNode_std [OF that] p by simp
  with p manifest_lacks_outputGainDb show ?thesis by blast
qed

text \<open>
  For one: a node whose params give \<open>levelDb = 6\<close> and \<open>outputGainDb = 30\<close> gets the
  level 24 dB, the clamped \<open>outputGainDb\<close>.
\<close>

lemma buildNode_outputGainDb_std_example:
  "json_number (params (example_gain_node ''output'')) ''outputGainDb'' = Some 30
   \<and> json_number (params (example_gain_node ''output'')) ''levelDb'' = Some 6
   \<and> levelDb (parseStd (example_gain_node ''output'')) = 24"
proof -
  have g: "json_number (params (example_gain_node ''output'')) ''outputGainDb'' = Some 30"
    by (simp add: example_gain_node_def json_number_def)
  have l: "json_number (params (example_gain_node ''output'')) ''levelDb'' = Some 6"
    by (simp add: example_gain_node_def json_number_def)
  from buildNode_outputGainDb_std [OF g] g l show ?thesis
    by (simp add: clampf_def)
qed

section \<open>Verification: overflow tail of a node\<close>

lemma length_write_range [simp]: "length (write_range dst lo hi f) = length dst"
  by (simp add: write_range_def)

lemma nth_write_range:
  "i < length dst \<Longrightarrow> write_range dst lo hi f ! i = (if lo \<le> i \<and> i < hi then f i else dst ! i)"
  by (simp add: write_range_def)

lemma length_write_n [simp]: "length (write_n dst n f) = length dst"
  by (simp add: write_n_def)

lemma nth_write_n:
  "i < length dst \<Longrightarrow> write_n dst n f ! i = (if i < n then f i else dst ! i)"
  by (simp add: write_n_def nth_write_range)

lemma length_memcpy [simp]: "length (memcpy dst src n) = length dst"
  by (simp add: memcpy_def)

lemma nth_memcpy:
  "i < length dst \<Longrightarrow> memcpy dst src n ! i = (if i < n then src ! i else dst ! i)"
  by (simp add: memcpy_def nth_write_n)

lemma tail_safe_process:
  "tail_safe B nd \<Longrightarrow> tail_safe B (fst (INode_process cs nd inp out n))"
proof (cases nd)
  case (Overdrive x)
  then show "tail_safe B nd \<Longrightarrow> ?thesis"
    by (simp add: OverdriveNode_process_def split: prod.splits)
next
  case (NamModel x)
  then show "tail_safe B nd \<Longrightarrow> ?thesis"
    by (simp add: NamModelNode_process_def Let_def split: prod.splits option.splits)
next
  case (IrConvolver x)
  then show "tail_safe B nd \<Longrightarrow> ?thesis"
    by (simp add: IrConvolverNode_process_def Let_def split: prod.splits)
qed simp_all

lemma tail_safe_process_calls:
  "tail_safe B nd \<Longrightarrow> tail_safe B (process_calls cs nd calls)"
proof (induction calls arbitrary: nd)
  case Nil
  then show ?case by simp
next
  case (Cons c calls)
  obtain inp out n where c: "c = (inp, out, n)" by (cases c)
  from Cons.prems have "tail_safe B (fst (INode_process cs nd inp out n))"
    by (rule tail_safe_process)
  from Cons.IH [OF this] show ?case by (simp add: c)
qed

lemma NamModel_tail:
  assumes "nam_maxFrames x \<le> i" "i < n" "i < length out"
  shows "snd (NamModelNode_process x inp out n) ! i = inp ! i"
proof (cases "if std_enabled (nam_std x) then model x else None")
  case None
  then have "snd (NamModelNode_process x inp out n) = memcpy out inp n"
    by (simp add: NamModelNode_process_def Let_def)
  with assms show ?thesis by (simp add: nth_memcpy)
next
  case (Some m)
  define frames where "frames = (if n \<le> nam_maxFrames x then n else nam_maxFrames x)"
  from Some obtain o1 where "snd (NamModelNode_process x inp out n) = write_range o1 frames n (\<lambda>i. inp ! i)"
    and "length o1 = length out"
    by (simp add: NamModelNode_process_def Let_def frames_def [symmetric])
  moreover have "frames \<le> i" using assms by (simp add: frames_def)
  ultimately show ?thesis using assms by (simp add: nth_write_range)
qed

lemma IrConvolver_tail:
  assumes "ir_maxFrames x \<le> i" "i < n" "i < length out"
  shows "snd (IrConvolverNode_process x inp out n) ! i = inp ! i"
proof (cases "\<not> std_enabled (ir_std x) \<or> \<not> mReady (conv x)")
  case True
  then have "snd (IrConvolverNode_process x inp out n) = memcpy out inp n"
    by (simp add: IrConvolverNode_process_def)
  with assms show ?thesis by (simp add: nth_memcpy)
next
  case False
  define frames where "frames = (if n \<le> ir_maxFrames x then n else ir_maxFrames x)"
  obtain ok c' out1 where pb: "processBlock (conv x) inp (ir_out x) (to_int32 (int frames)) = (ok, c', out1)"
    by (metis prod_cases3)
  from False pb obtain o1 where "snd (IrConvolverNode_process x inp out n) = write_range o1 frames n (\<lambda>i. inp ! i)"
    and "length o1 = length out"
    by (simp add: IrConvolverNode_process_def Let_def frames_def [symmetric])
  moreover have "frames \<le> i" using assms by (simp add: frames_def)
  ultimately show ?thesis using assms by (simp add: nth_write_range)
qed

lemma tail_safe_passthrough:
  assumes safe: "tail_safe B nd"
    and n: "n \<le> length inp" "n \<le> length out"
    and i: "B \<le> i" "i < n"
  shows "snd (INode_process cs nd inp out n) ! i = inp ! i"
proof -
  from n i have il: "i < length out" by simp
  show ?thesis
  proof (cases nd)
    case (Passthrough x)
    with safe il i show ?thesis by (simp add: PassthroughNode_process_def nth_memcpy)
  next
    case (Input x)
    with safe il i show ?thesis by (simp add: InputNode_process_def nth_memcpy)
  next
    case (Output x)
    with safe il i show ?thesis by (simp add: OutputNode_process_def nth_memcpy)
  next
    case (Overdrive x)
    with safe il i show ?thesis by (simp add: OverdriveNode_process_def nth_memcpy)
  next
    case (NamModel x)
    with safe have "nam_maxFrames x \<le> i" using i by simp
    with NamModel il i show ?thesis by (simp add: NamModel_tail case_prod_beta)
  next
    case (IrConvolver x)
    with safe have "ir_maxFrames x \<le> i" using i by simp
    with IrConvolver il i show ?thesis by (simp add: IrConvolver_tail case_prod_beta)
  qed
qed

lemma parseStd_enabled [simp]: "std_enabled (parseStd spec) = enabled spec"
  by (simp add: parseStd_def Let_def split: option.splits)

lemma NamModelNode_new_maxFrames [simp]:
  "nam_maxFrames (NamModelNode_new i sp m rate maxF preDb postDb inLim sc scTanh useLevel) = maxF"
  by (simp add: NamModelNode_new_def Let_def)

lemma IrConvolverNode_new_maxFrames [simp]: "ir_maxFrames (IrConvolverNode_new i sp c maxF) = maxF"
  by (simp add: IrConvolverNode_new_def)

lemma bypass_node_tail_safe [simp]: "tail_safe B (node (bypass_node spec t w))"
  by (simp add: bypass_node_def)

lemma build_nam_tail_safe:
  assumes "build_nam env spec pc = Inr r"
  shows "tail_safe (maxBlockFrames pc) (node r)"
proof (cases "enabled spec \<and> asset_path spec \<noteq> None")
  case False
  with assms obtain w where "r = bypass_node spec ''nam_model'' w"
    by (auto simp: build_nam_def split: option.splits if_splits)
  then show ?thesis by simp
next
  case True
  then obtain p where p: "asset_path spec = Some p" by auto
  from assms True p obtain m where m: "get_dsp env p = Inr (Some m)"
    by (auto simp: build_nam_def split: sum.splits option.splits)
  from assms True p m obtain nd w where "r = \<lparr>node = NamModel nd, warning = w\<rparr>"
    and "nam_maxFrames nd = maxBlockFrames pc"
    by (simp add: build_nam_def Let_def) (metis NamModelNode_new_maxFrames)
  then show ?thesis by simp
qed

lemma build_ir_tail_safe:
  assumes "build_ir env spec pc = Inr r"
  shows "tail_safe (maxBlockFrames pc) (node r)"
proof (cases "enabled spec \<and> asset_path spec \<noteq> None")
  case False
  with assms obtain w where "r = bypass_node spec ''ir_convolver'' w"
    by (auto simp: build_ir_def split: option.splits if_splits)
  then show ?thesis by simp
next
  case True
  then obtain p where p: "asset_path spec = Some p" by auto
  from assms True p obtain nd w where "r = \<lparr>node = IrConvolver nd, warning = w\<rparr>"
    and "ir_maxFrames nd = maxBlockFrames pc"
    by (auto simp: build_ir_def split: sum.splits if_splits prod.splits)
  then show ?thesis by simp
qed

lemma buildNode_tail_safe:
  assumes built: "buildNode env spec pc cs = (Inr r, cs')"
    and kind: "node_type spec = ''nam_model'' \<or> node_type spec = ''ir_convolver'' \<or> \<not> enabled spec"
  shows "tail_safe (maxBlockFrames pc) (node r)"
proof -
  consider (inp) "node_type spec = ''input''" | (out) "node_type spec = ''output''"
    | (od) "node_type spec = ''overdrive''" | (nam) "node_type spec = ''nam_model''"
    | (ir) "node_type spec = ''ir_convolver''"
    | (other) "node_type spec \<notin> {''input'', ''output'', ''overdrive'', ''nam_model'', ''ir_convolver''}"
    by auto
  then show ?thesis
  proof cases
    case inp
    with built kind show ?thesis by (auto simp: buildNode_def build_input_def Let_def)
  next
    case out
    with built kind show ?thesis by (auto simp: buildNode_def)
  next
    case od
    with built kind show ?thesis by (auto simp: buildNode_def build_overdrive_def Let_def)
  next
    case nam
    with built have "build_nam env spec pc = Inr r" by (simp add: buildNode_def)
    then show ?thesis by (rule build_nam_tail_safe)
  next
    case ir
    with built have "build_ir env spec pc = Inr r" by (simp add: buildNode_def)
    then show ?thesis by (rule build_ir_tail_safe)
  next
    case other
    with built show ?thesis by (simp add: buildNode_def)
  qed
qed

text \<open>
  Claim C7 (amended). A node \<open>buildNode\<close> returns for a \<open>nam_model\<close> or \<open>ir_convolver\<close>
  specification (the model node, the convolver node or the passthrough that stands in
  for a disabled or asset-less one), or for a disabled specification of any type, passes
  the overflow tail through: at any point of its life, \<open>process(in, out, n)\<close> with \<open>n\<close>
  above the bound \<open>B\<close> of the build leaves \<open>out[i] = in[i]\<close> for every \<open>i\<close> in \<open>[B, n)\<close>.
\<close>

theorem overflow_tail_passthrough:
  assumes "buildNode env spec pc cs = (Inr r, cs')"
    and "node_type spec = ''nam_model'' \<or> node_type spec = ''ir_convolver'' \<or> \<not> enabled spec"
    and "maxBlockFrames pc < n" "n \<le> length inp" "n \<le> length out"
    and "maxBlockFrames pc \<le> i" "i < n"
  shows "snd (INode_process cs2 (process_calls cs1 (node r) calls) inp out n) ! i = inp ! i"
proof -
  have "tail_safe (maxBlockFrames pc) (node r)"
    using assms(1,2) by (rule buildNode_tail_safe)
  then have "tail_safe (maxBlockFrames pc) (process_calls cs1 (node r) calls)"
    by (rule tail_safe_process_calls)
  then show ?thesis using assms(4-7) by (rule tail_safe_passthrough)
qed

lemma dbToLin_20 [simp]: "dbToLin 20 = 10"
  by (simp add: dbToLin_def)

lemma dbToLin_0 [simp]: "dbToLin 0 = 1"
  by (simp add: dbToLin_def)

text \<open>
  Witness for C7 (amended): the passthrough node built for a disabled amp, with bound 1,
  copies sample 1 of a two-sample block.
\<close>

theorem overflow_tail_passthrough_witness:
  "fst (buildNode example_env disabled_amp (example_ctx 1) example_cells)
     = Inr (bypass_node disabled_amp ''nam_model'' [])
   \<and> node_type disabled_amp = ''nam_model''
   \<and> maxBlockFrames (example_ctx 1) < 2
   \<and> snd (INode_process example_cells (node (bypass_node disabled_amp ''nam_model'' []))
          [1, 2] [0, 0] 2) ! 1 = [1, 2] ! 1"
proof -
  have b: "buildNode example_env disabled_amp (example_ctx 1) example_cells
      = (Inr (bypass_node disabled_amp ''nam_model'' []), example_cells)"
    by (simp add: buildNode_def build_nam_def disabled_amp_def example_node_def)
  have t: "node_type disabled_amp = ''nam_model''"
    by (simp add: disabled_amp_def example_node_def)
  have "snd (INode_process example_cells
          (process_calls example_cells (node (bypass_node disabled_amp ''nam_model'' [])) [])
          [1, 2] [0, 0] 2) ! 1 = [1, 2] ! 1"
    by (rule overflow_tail_passthrough [OF b, where i = 1])
      (simp_all add: t example_ctx_def)
  with b t show ?thesis by (simp add: example_ctx_def)
qed

text \<open>
  Counterexample to C7 as stated: the output node built from an enabled specification
  with 20 dB of level and bound 1 scales sample 1 of a two-sample block by 10 instead
  of copying it.
\<close>

theorem overflow_tail_output_counterexample:
  "fst (buildNode example_env loud_output (example_ctx 1) example_cells)
     = Inr \<lparr>node = loud_output_node, warning = []\<rparr>
   \<and> maxBlockFrames (example_ctx 1) = 1
   \<and> snd (INode_process example_cells loud_output_node [1, 1] [0, 0] 2) ! 1 = 10
   \<and> [1, 1 :: real] ! 1 = 1"
  by (simp add: buildNode_def loud_output_def example_node_def NodeSpec_default_def
      parseStd_def json_number_def NodeStandardParams_default_def clampf_def
      loud_output_node_def example_ctx_def OutputNode_process_def write_n_def
      write_range_def)

section \<open>Verification: the signal chain\<close>

lemma write_range_cong:
  "(\<And>i. lo \<le> i \<Longrightarrow> i < hi \<Longrightarrow> i < length dst \<Longrightarrow> f i = g i)
     \<Longrightarrow> write_range dst lo hi f = write_range dst lo hi g"
  by (simp add: write_range_def)

lemma write_n_cong:
  "(\<And>i. i < n \<Longrightarrow> i < length dst \<Longrightarrow> f i = g i) \<Longrightarrow> write_n dst n f = write_n dst n g"
  unfolding write_n_def by (rule write_range_cong) simp

lemma memcpy_take: "n \<le> m \<Longrightarrow> memcpy dst (take m src) n = memcpy dst src n"
  unfolding memcpy_def by (rule write_n_cong) simp

lemma take_write_n:
  "n \<le> length dst \<Longrightarrow> take n (write_n dst n f) = map f [0..<n]"
  by (rule nth_equalityI) (simp_all add: nth_write_n)

lemma take_memcpy:
  "n \<le> length dst \<Longrightarrow> n \<le> length src \<Longrightarrow> take n (memcpy dst src n) = take n src"
  by (rule nth_equalityI) (simp_all add: nth_memcpy)

lemma to_int32_le: "0 \<le> v \<Longrightarrow> to_int32 v \<le> v"
proof -
  assume "0 \<le> v"
  then have "(v + 2 ^ 31) mod 2 ^ 32 \<le> v + 2 ^ 31"
    by (intro zmod_le_nonneg_dividend) simp
  then show ?thesis by (simp add: to_int32_def)
qed

lemma processBlock_length:
  "length (snd (snd (processBlock c inp out n))) = length out"
  by (simp add: processBlock_def Let_def)

lemma processBlock_take:
  assumes "nat n \<le> m"
  shows "processBlock c (take m inp) out n = processBlock c inp out n"
proof (cases "\<not> mReady c \<or> n \<noteq> mBlock c")
  case True
  then show ?thesis by (auto simp: processBlock_def)
next
  case False
  then have "nat (mBlock c) \<le> m" using assms by simp
  then have "memcpy (mTimeIn c) (take m inp) (nat (mBlock c)) = memcpy (mTimeIn c) inp (nat (mBlock c))"
    by (rule memcpy_take)
  then show ?thesis by (simp add: processBlock_def)
qed

lemma INode_process_length [simp]:
  "length (snd (INode_process cs nd inp out n)) = length out"
proof (cases nd)
  case (Passthrough x)
  then show ?thesis by (simp add: PassthroughNode_process_def)
next
  case (Input x)
  then show ?thesis by (simp add: InputNode_process_def Let_def)
next
  case (Output x)
  then show ?thesis by (simp add: OutputNode_process_def Let_def)
next
  case (Overdrive x)
  then show ?thesis by (simp add: OverdriveNode_process_def split: prod.splits)
next
  case (NamModel x)
  then show ?thesis
    by (simp add: NamModelNode_process_def Let_def case_prod_beta split: option.splits)
next
  case (IrConvolver x)
  then show ?thesis
    by (simp add: IrConvolverNode_process_def Let_def case_prod_beta)
qed

lemma Passthrough_take:
  assumes "n \<le> length inp" "n \<le> length out"
  shows "take n (PassthroughNode_process x inp out n)
       = take n (PassthroughNode_process x (take n inp) (replicate n 0) n)"
  using assms
  by (intro nth_equalityI) (simp_all add: PassthroughNode_process_def nth_memcpy nth_write_n Let_def)

lemma Input_take:
  assumes "n \<le> length inp" "n \<le> length out"
  shows "take n (InputNode_process cs x inp out n)
       = take n (InputNode_process cs x (take n inp) (replicate n 0) n)"
  using assms
  by (intro nth_equalityI) (simp_all add: InputNode_process_def nth_memcpy nth_write_n Let_def)

lemma Output_take:
  assumes "n \<le> length inp" "n \<le> length out"
  shows "take n (OutputNode_process x inp out n)
       = take n (OutputNode_process x (take n inp) (replicate n 0) n)"
  using assms
  by (intro nth_equalityI) (simp_all add: OutputNode_process_def nth_memcpy nth_write_n Let_def)

lemma Overdrive_take:
  assumes "n \<le> length inp" "n \<le> length out"
  shows "take n (snd (OverdriveNode_process x inp out n))
       = take n (snd (OverdriveNode_process x (take n inp) (replicate n 0) n))"
proof (cases "std_enabled (od_std x)")
  case False
  with assms show ?thesis
    by (intro nth_equalityI) (simp_all add: OverdriveNode_process_def nth_memcpy)
next
  case True
  obtain z written where l: "overdrive_loop x (z1 x) (take n inp) = (z, written)"
    by (cases "overdrive_loop x (z1 x) (take n inp)")
  with True assms show ?thesis
    by (intro nth_equalityI) (simp_all add: OverdriveNode_process_def nth_write_n)
qed

lemma NamModel_take:
  assumes "n \<le> length inp" "n \<le> length out"
  shows "take n (snd (NamModelNode_process x inp out n))
       = take n (snd (NamModelNode_process x (take n inp) (replicate n 0) n))"
proof (cases "if std_enabled (nam_std x) then model x else None")
  case None
  then have "snd (NamModelNode_process x i' o' n) = memcpy o' i' n" for i' o'
    by (simp add: NamModelNode_process_def Let_def)
  with assms show ?thesis
    by (intro nth_equalityI) (simp_all add: nth_memcpy)
next
  case (Some m)
  define frames where "frames = (if n \<le> nam_maxFrames x then n else nam_maxFrames x)"
  have fn: "frames \<le> n" by (simp add: frames_def)
  define xs where "xs = take n inp"
  have in_eq: "write_n (nam_in x) frames (\<lambda>i. nam_prepare x (xs ! i))
      = write_n (nam_in x) frames (\<lambda>i. nam_prepare x (inp ! i))"
    using fn by (intro write_n_cong) (simp add: xs_def)
  define in' where "in' = write_n (nam_in x) frames (\<lambda>i. nam_prepare x (inp ! i))"
  define out' where "out' = (case fst (nam_process m (take frames in')) of
                            Some ys \<Rightarrow> write_n (nam_out x) frames (\<lambda>i. ys ! i)
                          | None \<Rightarrow> memcpy (nam_out x) in' frames)"
  define wet where "wet = (\<lambda>src :: real list. \<lambda>i. src ! i * mixDry (nam_std x) + out' ! i * nam_postLin x * mixWet (nam_std x))"
  have r: "snd (NamModelNode_process x i' o' n)
      = write_range (write_n o' frames (wet i')) frames n (\<lambda>i. i' ! i)"
    if "write_n (nam_in x) frames (\<lambda>i. nam_prepare x (i' ! i)) = in'" for i' o'
    using Some that
    by (simp add: NamModelNode_process_def Let_def frames_def [symmetric] out'_def wet_def
        cong: option.case_cong)
  have a: "snd (NamModelNode_process x inp out n)
      = write_range (write_n out frames (wet inp)) frames n (\<lambda>i. inp ! i)"
    by (rule r) (simp add: in'_def)
  have b: "snd (NamModelNode_process x xs (replicate n 0) n)
      = write_range (write_n (replicate n 0) frames (wet xs)) frames n (\<lambda>i. xs ! i)"
    by (rule r) (simp add: in'_def in_eq)
  show ?thesis
    unfolding xs_def [symmetric] a b using assms fn
    by (intro nth_equalityI) (auto simp: nth_write_range nth_write_n wet_def xs_def)
qed

lemma IrConvolver_take:
  assumes "n \<le> length inp" "n \<le> length out"
  shows "take n (snd (IrConvolverNode_process x inp out n))
       = take n (snd (IrConvolverNode_process x (take n inp) (replicate n 0) n))"
proof (cases "\<not> std_enabled (ir_std x) \<or> \<not> mReady (conv x)")
  case True
  then have "snd (IrConvolverNode_process x i' o' n) = memcpy o' i' n" for i' o'
    by (simp add: IrConvolverNode_process_def)
  with assms show ?thesis
    by (intro nth_equalityI) (simp_all add: nth_memcpy)
next
  case False
  define frames where "frames = (if n \<le> ir_maxFrames x then n else ir_maxFrames x)"
  have fn: "frames \<le> n" by (simp add: frames_def)
  define xs where "xs = take n inp"
  have "nat (to_int32 (int frames)) \<le> frames"
    using to_int32_le [of "int frames"] by simp
  with fn have "nat (to_int32 (int frames)) \<le> n" by simp
  then have pb_eq: "processBlock (conv x) xs (ir_out x) (to_int32 (int frames))
      = processBlock (conv x) inp (ir_out x) (to_int32 (int frames))"
    unfolding xs_def by (rule processBlock_take)
  obtain ok c' out1 where pb: "processBlock (conv x) inp (ir_out x) (to_int32 (int frames)) = (ok, c', out1)"
    by (metis prod_cases3)
  have cp: "memcpy out1 xs frames = memcpy out1 inp frames"
    unfolding xs_def using fn by (rule memcpy_take)
  define out' where "out' = (if \<not> ok then memcpy out1 inp frames else out1)"
  define wet where "wet = (\<lambda>src :: real list. \<lambda>i. src ! i * mixDry (ir_std x) + out' ! i * levelLin (ir_std x) * mixWet (ir_std x))"
  have a: "snd (IrConvolverNode_process x inp out n)
      = write_range (write_n out frames (wet inp)) frames n (\<lambda>i. inp ! i)"
    using False pb
    by (simp add: IrConvolverNode_process_def Let_def frames_def [symmetric] out'_def wet_def)
  have b: "snd (IrConvolverNode_process x xs (replicate n 0) n)
      = write_range (write_n (replicate n 0) frames (wet xs)) frames n (\<lambda>i. xs ! i)"
    using False pb pb_eq cp
    by (simp add: IrConvolverNode_process_def Let_def frames_def [symmetric] out'_def wet_def)
  show ?thesis
    unfolding xs_def [symmetric] a b using assms fn
    by (intro nth_equalityI) (auto simp: nth_write_range nth_write_n wet_def xs_def)
qed

lemma INode_process_take:
  assumes "n \<le> length inp" "n \<le> length out"
  shows "take n (snd (INode_process cs nd inp out n)) = node_samples cs nd (take n inp)"
proof -
  have "take n (snd (INode_process cs nd inp out n))
      = take n (snd (INode_process cs nd (take n inp) (replicate n 0) n))"
  proof (cases nd)
    case (Passthrough x)
    then show ?thesis using Passthrough_take [OF assms] by simp
  next
    case (Input x)
    then show ?thesis using Input_take [OF assms] by simp
  next
    case (Output x)
    then show ?thesis using Output_take [OF assms] by simp
  next
    case (Overdrive x)
    then show ?thesis using Overdrive_take [OF assms] by (simp add: case_prod_beta)
  next
    case (NamModel x)
    then show ?thesis using NamModel_take [OF assms] by (simp add: case_prod_beta)
  next
    case (IrConvolver x)
    then show ?thesis using IrConvolver_take [OF assms] by (simp add: case_prod_beta)
  qed
  then show ?thesis using assms by (simp add: node_samples_def)
qed

lemma process_rest_pipeline:
  assumes "frames \<le> length a" "frames \<le> length b"
  shows "(case process_rest cs nds a b sw frames of
            (nds', a', b', sw') \<Rightarrow>
              take frames a' = pipeline cs nds (take frames a)
              \<and> {length a', length b'} = {length a, length b})"
  using assms
proof (induction nds arbitrary: a b sw)
  case Nil
  then show ?case by simp
next
  case (Cons nd nds)
  obtain nd' b1 where p: "INode_process cs nd a b frames = (nd', b1)"
    by (cases "INode_process cs nd a b frames")
  have lb: "length b1 = length b"
    using INode_process_length [of cs nd a b frames] by (simp add: p)
  have tb: "take frames b1 = node_samples cs nd (take frames a)"
    using INode_process_take [OF Cons.prems, of cs nd] by (simp add: p)
  have "frames \<le> length b1" "frames \<le> length a" using Cons.prems lb by simp_all
  from Cons.IH [OF this, of "\<not> sw"] show ?case
    by (auto simp: p tb lb split: prod.splits)
qed

lemma SignalChain_new_buffers:
  "length (bufA (SignalChain_new env spec ns pc)) = maxBlockFrames pc
   \<and> length (bufB (SignalChain_new env spec ns pc)) = maxBlockFrames pc
   \<and> maxBlockFrames (sc_ctx (SignalChain_new env spec ns pc)) = maxBlockFrames pc"
  by (simp add: SignalChain_new_def)

lemma SignalChain_process_buffers:
  assumes "length (bufA sc) = M" "length (bufB sc) = M" "maxBlockFrames (sc_ctx sc) = M"
  shows "length (bufA (fst (SignalChain_process cs sc inp out k))) = M
     \<and> length (bufB (fst (SignalChain_process cs sc inp out k))) = M
     \<and> maxBlockFrames (sc_ctx (fst (SignalChain_process cs sc inp out k))) = M"
proof (cases "nodes sc")
  case Nil
  with assms show ?thesis by (simp add: SignalChain_process_def Let_def)
next
  case (Cons nd0 nds)
  define frames where "frames = (if k \<le> maxBlockFrames (sc_ctx sc) then k else maxBlockFrames (sc_ctx sc))"
  have fM: "frames \<le> M" using assms(3) by (simp add: frames_def)
  obtain nd0' a0 where p0: "INode_process cs nd0 inp (bufA sc) frames = (nd0', a0)"
    by (cases "INode_process cs nd0 inp (bufA sc) frames")
  have la0: "length a0 = M"
    using INode_process_length [of cs nd0 inp "bufA sc" frames] assms(1) by (simp add: p0)
  obtain nds' a b sw where pr: "process_rest cs nds a0 (bufB sc) False frames = (nds', a, b, sw)"
    by (metis prod_cases4)
  have "frames \<le> length a0" "frames \<le> length (bufB sc)" using la0 fM assms(2) by simp_all
  from process_rest_pipeline [OF this, of cs nds False]
  have "length a = M" "length b = M"
    using la0 assms(2) by (auto simp: pr doubleton_eq_iff)
  moreover have "fst (SignalChain_process cs sc inp out k)
      = sc\<lparr>nodes := nd0' # nds', bufA := (if sw then b else a), bufB := (if sw then a else b)\<rparr>"
    using Cons p0 pr by (simp add: SignalChain_process_def Let_def frames_def [symmetric])
  ultimately show ?thesis using assms(3) by simp
qed

text \<open>
  Claim C3. For a chain whose scratch buffers have the length \<open>M\<close> of its context (as
  the constructor makes them) and a call \<open>process(in, out, k)\<close> on buffers of at least
  \<open>k\<close> samples: with no node the first \<open>k\<close> samples of \<open>out\<close> are those of \<open>in\<close>;
  otherwise the first \<open>min k M\<close> samples of \<open>out\<close> are what node 0 makes of the input
  passed on through every later node in order; the samples from \<open>min k M\<close> up to \<open>k\<close>
  are those of \<open>in\<close>; and \<open>out\<close> keeps its length and every sample from \<open>k\<close> on, so
  exactly \<open>k\<close> samples are written.
\<close>

theorem SignalChain_process_pipeline:
  assumes "length (bufA sc) = M" "length (bufB sc) = M" "maxBlockFrames (sc_ctx sc) = M"
    and "k \<le> length inp" "k \<le> length out"
  shows "length (snd (SignalChain_process cs sc inp out k)) = length out
     \<and> (nodes sc = [] \<longrightarrow> take k (snd (SignalChain_process cs sc inp out k)) = take k inp)
     \<and> (nodes sc \<noteq> [] \<longrightarrow>
          take (min k M) (snd (SignalChain_process cs sc inp out k))
            = pipeline cs (nodes sc) (take (min k M) inp))
     \<and> (\<forall>i. min k M \<le> i \<and> i < k \<longrightarrow> snd (SignalChain_process cs sc inp out k) ! i = inp ! i)
     \<and> (\<forall>i. k \<le> i \<and> i < length out \<longrightarrow> snd (SignalChain_process cs sc inp out k) ! i = out ! i)"
proof (cases "nodes sc")
  case Nil
  then have r: "snd (SignalChain_process cs sc inp out k) = memcpy out inp k"
    by (simp add: SignalChain_process_def Let_def)
  show ?thesis
    unfolding r using assms Nil by (auto simp: take_memcpy nth_memcpy)
next
  case (Cons nd0 nds)
  define frames where "frames = min k M"
  have f: "frames = (if k \<le> maxBlockFrames (sc_ctx sc) then k else maxBlockFrames (sc_ctx sc))"
    using assms(3) by (simp add: frames_def min_def)
  have fk: "frames \<le> k" and fM: "frames \<le> M" by (simp_all add: frames_def)
  obtain nd0' a0 where p0: "INode_process cs nd0 inp (bufA sc) frames = (nd0', a0)"
    by (cases "INode_process cs nd0 inp (bufA sc) frames")
  have la0: "length a0 = M"
    using INode_process_length [of cs nd0 inp "bufA sc" frames] assms(1) by (simp add: p0)
  have ta0: "take frames a0 = node_samples cs nd0 (take frames inp)"
    using INode_process_take [of frames inp "bufA sc" cs nd0] fk fM assms by (simp add: p0)
  obtain nds' a b sw where pr: "process_rest cs nds a0 (bufB sc) False frames = (nds', a, b, sw)"
    by (metis prod_cases4)
  have "frames \<le> length a0" "frames \<le> length (bufB sc)" using la0 fM assms(2) by simp_all
  from process_rest_pipeline [OF this, of cs nds False]
  have ta: "take frames a = pipeline cs nds (take frames a0)" and la: "length a = M"
    using la0 assms(2) by (auto simp: pr doubleton_eq_iff)
  define out1 where "out1 = memcpy out a frames"
  have r: "snd (SignalChain_process cs sc inp out k)
      = (if frames < k then write_range out1 frames k (\<lambda>i. inp ! i) else out1)"
    using Cons p0 pr by (simp add: SignalChain_process_def Let_def f [symmetric] out1_def)
  have l1: "length out1 = length out" by (simp add: out1_def)
  have fo: "frames \<le> length out" using fk assms(5) by simp
  have t1: "take frames out1 = pipeline cs (nodes sc) (take frames inp)"
    using fo la fM by (simp add: out1_def take_memcpy ta ta0 Cons)
  have "take frames (snd (SignalChain_process cs sc inp out k)) = take frames out1"
    unfolding r using fo l1
    by (intro nth_equalityI) (simp_all add: nth_write_range)
  with t1 have c: "take frames (snd (SignalChain_process cs sc inp out k))
      = pipeline cs (nodes sc) (take frames inp)" by simp
  have d: "snd (SignalChain_process cs sc inp out k) ! i = inp ! i" if "frames \<le> i" "i < k" for i
    unfolding r using that l1 assms(5) by (simp add: nth_write_range)
  have e: "snd (SignalChain_process cs sc inp out k) ! i = out ! i" if "k \<le> i" "i < length out" for i
    unfolding r using that l1 fk by (simp add: nth_write_range out1_def nth_memcpy)
  have "length (snd (SignalChain_process cs sc inp out k)) = length out"
    unfolding r using l1 by simp
  with c d e Cons show ?thesis unfolding frames_def by simp
qed

text \<open>
  Witness for C3: a chain of one output node with 20 dB of level and bound 1, run on two
  frames, scales the first sample and copies the second.
\<close>

theorem SignalChain_process_pipeline_witness:
  "length (snd (SignalChain_process example_cells
          (SignalChain_new example_env example_spec [loud_output_node] (example_ctx 1))
          [1, 2] [0, 0, 7] 2)) = 3
   \<and> take 1 (snd (SignalChain_process example_cells
          (SignalChain_new example_env example_spec [loud_output_node] (example_ctx 1))
          [1, 2] [0, 0, 7] 2)) = [10]
   \<and> snd (SignalChain_process example_cells
          (SignalChain_new example_env example_spec [loud_output_node] (example_ctx 1))
          [1, 2] [0, 0, 7] 2) ! 1 = 2
   \<and> snd (SignalChain_process example_cells
          (SignalChain_new example_env example_spec [loud_output_node] (example_ctx 1))
          [1, 2] [0, 0, 7] 2) ! 2 = 7
   \<and> pipeline example_cells [loud_output_node] (take (min 2 1) [1, 2]) = [10]"
proof -
  let ?sc = "SignalChain_new example_env example_spec [loud_output_node] (example_ctx 1)"
  have 1: "length (bufA ?sc) = 1" "length (bufB ?sc) = 1" "maxBlockFrames (sc_ctx ?sc) = 1"
    by (simp_all add: SignalChain_new_def example_ctx_def)
  have 2: "(2::nat) \<le> length [1, 2 :: real]" "(2::nat) \<le> length [0, 0, 7 :: real]" by simp_all
  have n: "nodes ?sc \<noteq> []" by (simp add: SignalChain_new_def)
  have p: "pipeline example_cells [loud_output_node] (take (min 2 1) [1, 2]) = [10]"
    by (simp add: node_samples_def loud_output_node_def OutputNode_process_def write_n_def
        write_range_def)
  note t = SignalChain_process_pipeline [OF 1 2, of example_cells]
  let ?o = "snd (SignalChain_process example_cells ?sc [1, 2] [0, 0, 7] 2)"
  from t have len: "length ?o = 3" by simp
  from t n p have o0: "take 1 ?o = [10]" by (simp add: SignalChain_new_def)
  from t have "?o ! 1 = [1, 2] ! 1" by (simp add: min_def)
  then have o1: "?o ! 1 = 2" by simp
  from t have "?o ! 2 = [0, 0, 7] ! 2" by simp
  then have o2: "?o ! 2 = 7" by simp
  from len o0 o1 o2 p show ?thesis by simp
qed

section \<open>Verification: the control server\<close>

lemma error_response_ok [simp]:
  "jget (error_response msg) ''ok'' = Some (JBool False)"
  "jget (error_response msg) ''error'' = Some (JString msg)"
  by (simp_all add: error_response_def)

lemma persist_cases:
  "((outcome = DiskOk \<or> outcome = CloseFails)
      \<and> persistChainToDisk outcome p spec d
          = (None, (d(p @ ''.tmp'' := None))
                     (p \<mapsto> (if outcome = DiskOk then Whole (chainSpecToJson spec) else Truncated))))
   \<or> (\<not> (outcome = DiskOk \<or> outcome = CloseFails)
      \<and> (\<exists>e d'. persistChainToDisk outcome p spec d = (Some e, d') \<and> d' p = d p))"
  by (cases outcome) (simp_all add: persistChainToDisk_def Let_def)

lemma set_chain_accepts_unique:
  assumes "set_chain_accepts env outcome state req v b" "set_chain_accepts env outcome state req v' b'"
  shows "v' = v \<and> b' = b"
  using assms by (auto simp: set_chain_accepts_def split: option.splits sum.splits)

lemma handle_set_chain_accepted:
  assumes "set_chain_accepts env outcome state req validated built"
  shows "fst (handle_set_chain env outcome state req)
           = JObject ((''ok'', JBool True)
               # (if built_warning built \<noteq> [] then [(''warning'', JString (built_warning built))] else []))"
    and "pendingChain (snd (handle_set_chain env outcome state req)) = Some (built_chain built)"
    and "lastSpec (snd (handle_set_chain env outcome state req)) = validated"
    and "activeChain (snd (handle_set_chain env outcome state req)) = activeChain state"
    and "disk (snd (handle_set_chain env outcome state req)) (configPath state)
           = Some (if outcome = DiskOk then Whole (chainSpecToJson validated) else Truncated)"
proof -
  from assms obtain c parsed where c: "jget req ''chain'' = Some c"
    and p: "parseChainJson c = Inr parsed"
    and v: "validateChainSpec (parsed\<lparr>sampleRate := ctx_sampleRate (ctx state)\<rparr>) = Inr validated"
    and b: "fst (buildChain env validated (ctx state) (cells state)) = Inr built"
    and d: "outcome = DiskOk \<or> outcome = CloseFails"
    by (auto simp: set_chain_accepts_def split: option.splits sum.splits)
  from b obtain cs' where b': "buildChain env validated (ctx state) (cells state) = (Inr built, cs')"
    by (cases "buildChain env validated (ctx state) (cells state)") simp
  have r: "handle_set_chain env outcome state req =
      (JObject ((''ok'', JBool True)
         # (if built_warning built \<noteq> [] then [(''warning'', JString (built_warning built))] else [])),
       state\<lparr>cells := cs',
             disk := ((disk state)(configPath state @ ''.tmp'' := None))
                       (configPath state \<mapsto>
                          (if outcome = DiskOk then Whole (chainSpecToJson validated) else Truncated)),
             lastSpec := validated, pendingChain := Some (built_chain built)\<rparr>)"
    using c p v b' d by (auto simp: handle_set_chain_def Let_def persistChainToDisk_def)
  show "fst (handle_set_chain env outcome state req)
           = JObject ((''ok'', JBool True)
               # (if built_warning built \<noteq> [] then [(''warning'', JString (built_warning built))] else []))"
    and "pendingChain (snd (handle_set_chain env outcome state req)) = Some (built_chain built)"
    and "lastSpec (snd (handle_set_chain env outcome state req)) = validated"
    and "activeChain (snd (handle_set_chain env outcome state req)) = activeChain state"
    and "disk (snd (handle_set_chain env outcome state req)) (configPath state)
           = Some (if outcome = DiskOk then Whole (chainSpecToJson validated) else Truncated)"
    by (simp_all add: r)
qed

lemma handle_set_chain_refused:
  assumes "\<not> (\<exists>validated built. set_chain_accepts env outcome state req validated built)"
  shows "\<exists>msg. fst (handle_set_chain env outcome state req) = error_response msg"
    and "pendingChain (snd (handle_set_chain env outcome state req)) = pendingChain state"
    and "activeChain (snd (handle_set_chain env outcome state req)) = activeChain state"
    and "lastSpec (snd (handle_set_chain env outcome state req)) = lastSpec state"
    and "disk (snd (handle_set_chain env outcome state req)) (configPath state)
           = disk state (configPath state)"
proof -
  let ?r = "handle_set_chain env outcome state req"
  have "(\<exists>msg. fst ?r = error_response msg) \<and> pendingChain (snd ?r) = pendingChain state
      \<and> activeChain (snd ?r) = activeChain state \<and> lastSpec (snd ?r) = lastSpec state
      \<and> disk (snd ?r) (configPath state) = disk state (configPath state)"
  proof (cases "jget req ''chain''")
    case None
    then show ?thesis by (auto simp: handle_set_chain_def)
  next
    case (Some c)
    show ?thesis
    proof (cases "parseChainJson c")
      case (Inl e)
      with Some show ?thesis by (auto simp: handle_set_chain_def)
    next
      case (Inr parsed)
      show ?thesis
      proof (cases "validateChainSpec (parsed\<lparr>sampleRate := ctx_sampleRate (ctx state)\<rparr>)")
        case (Inl e)
        with Some Inr show ?thesis by (auto simp: handle_set_chain_def Let_def)
      next
        case v: (Inr validated)
        obtain br cs' where b: "buildChain env validated (ctx state) (cells state) = (br, cs')"
          by (cases "buildChain env validated (ctx state) (cells state)")
        show ?thesis
        proof (cases br)
          case (Inl e)
          with Some Inr v b show ?thesis by (auto simp: handle_set_chain_def Let_def)
        next
          case built: (Inr built)
          have "\<not> (outcome = DiskOk \<or> outcome = CloseFails)"
            using assms Some Inr v b built by (auto simp: set_chain_accepts_def)
          with persist_cases [of outcome "configPath state" validated "disk state"]
          obtain e d' where pe: "persistChainToDisk outcome (configPath state) validated (disk state) = (Some e, d')"
            and keep: "d' (configPath state) = disk state (configPath state)"
            by auto
          from Some Inr v b built pe keep show ?thesis
            by (auto simp: handle_set_chain_def Let_def)
        qed
      qed
    qed
  qed
  then show "\<exists>msg. fst ?r = error_response msg"
    and "pendingChain (snd ?r) = pendingChain state"
    and "activeChain (snd ?r) = activeChain state"
    and "lastSpec (snd ?r) = lastSpec state"
    and "disk (snd ?r) (configPath state) = disk state (configPath state)"
    by blast+
qed

text \<open>
  What a \<open>set_chain\<close> request does. It never touches the active chain. Either no step
  reports a failure (the chain field is present, parses, validates, builds, and
  \<open>persistChainToDisk\<close> returns true): then the answer is \<open>{"ok":true}\<close>, with the
  build's warning if there is one, the built chain is stored into the pending cell, and
  the configured file holds the validated chain, or no whole document when the write
  failed at \<open>fclose\<close>. Or some step reports a failure: then the answer is
  \<open>{"ok":false,"error":msg}\<close> and the pending cell is as before. A line that does not
  parse as JSON is answered with an error and leaves the whole state as it is.
\<close>

lemma set_chain_outcomes:
  assumes "jget req ''cmd'' = Some (JString ''set_chain'')"
  shows "activeChain (snd (handleRequest env outcome state req)) = activeChain state
     \<and> ((\<exists>validated built.
            set_chain_accepts env outcome state req validated built
            \<and> fst (handleRequest env outcome state req)
                 = JObject ((''ok'', JBool True)
                     # (if built_warning built \<noteq> []
                        then [(''warning'', JString (built_warning built))] else []))
            \<and> pendingChain (snd (handleRequest env outcome state req)) = Some (built_chain built)
            \<and> disk (snd (handleRequest env outcome state req)) (configPath state)
                 = Some (if outcome = DiskOk then Whole (chainSpecToJson validated) else Truncated))
         \<or> ((\<nexists>validated built. set_chain_accepts env outcome state req validated built)
            \<and> (\<exists>msg. fst (handleRequest env outcome state req) = error_response msg)
            \<and> pendingChain (snd (handleRequest env outcome state req)) = pendingChain state))
     \<and> serve_line env outcome state (Inl what) = (error_response (''parse error: '' @ what), state)"
proof -
  from assms have obj: "is_object req" by (cases req) simp_all
  have h: "handleRequest env outcome state req = handle_set_chain env outcome state req"
    using assms obj by (simp add: handleRequest_def)
  have s: "serve_line env outcome state (Inl what) = (error_response (''parse error: '' @ what), state)"
    by (simp add: serve_line_def)
  show ?thesis
  proof (cases "\<exists>validated built. set_chain_accepts env outcome state req validated built")
    case True
    then obtain validated built where a: "set_chain_accepts env outcome state req validated built"
      by blast
    from handle_set_chain_accepted [OF a] a s show ?thesis unfolding h by blast
  next
    case False
    from handle_set_chain_refused [OF False] False s show ?thesis unfolding h by blast
  qed
qed

lemma build_nam_no_asset:
  "asset n = None \<Longrightarrow> \<exists>r. build_nam env n pc = Inr r"
  by (simp add: build_nam_def asset_path_def)

lemma build_ir_no_asset:
  "asset n = None \<Longrightarrow> \<exists>r. build_ir env n pc = Inr r"
  by (simp add: build_ir_def asset_path_def)

lemma buildNode_no_asset:
  assumes "asset n = None"
    and "node_type n \<in> {''input'', ''output'', ''overdrive'', ''nam_model'', ''ir_convolver''}"
  shows "\<exists>r cs'. buildNode env n pc cs = (Inr r, cs')"
  using assms build_nam_no_asset [of n env pc] build_ir_no_asset [of n env pc]
  by (auto simp: buildNode_def split: prod.splits)

lemma buildNodes_no_asset:
  assumes "\<forall>n\<in>set ns. asset n = None
     \<and> node_type n \<in> {''input'', ''output'', ''overdrive'', ''nam_model'', ''ir_convolver''}"
  shows "\<exists>r cs'. buildNodes env ns pc cs acc w = (Inr r, cs')"
  using assms
proof (induction ns arbitrary: cs acc w)
  case Nil
  then show ?case by simp
next
  case (Cons n ns)
  then obtain r cs1 where b: "buildNode env n pc cs = (Inr r, cs1)"
    using buildNode_no_asset [of n env pc cs] by auto
  from Cons show ?case by (simp add: b Let_def)
qed

lemma buildChain_no_asset:
  assumes "\<forall>n\<in>set (chain spec). asset n = None
     \<and> node_type n \<in> {''input'', ''output'', ''overdrive'', ''nam_model'', ''ir_convolver''}"
  shows "\<exists>built. fst (buildChain env spec pc cs) = Inr built \<and> sc_spec (built_chain built) = spec"
proof -
  from buildNodes_no_asset [OF assms, of env pc cs "[]" "[]"]
  obtain ns w cs' where "buildNodes env (chain spec) pc cs [] [] = (Inr (ns, w), cs')" by auto
  then show ?thesis by (simp add: buildChain_def SignalChain_new_def)
qed

lemma boot_chain_spec: "sc_spec boot_chain = example_spec"
  by (simp add: boot_chain_def buildChain_def SignalChain_new_def split: sum.splits prod.splits)

lemma parse_empty_object: "parseChainJson (JObject []) = Inr legacy_default_spec"
  by (simp add: contains_def parseChainJson_def parseLegacy_def
      legacy_sampleRate_def legacy_input_def legacy_asset_def ChainSpec_default_def
      legacy_default_spec_def)

lemma legacy_default_spec_valid: "validateChainSpec legacy_default_spec = Inr legacy_default_spec"
  by (simp add: legacy_default_spec_def validateChainSpec_def to_int32_def)

lemma example_set_chain_accepts:
  assumes "outcome = DiskOk \<or> outcome = CloseFails"
  shows "\<exists>built. set_chain_accepts example_env outcome example_state example_set_chain
      legacy_default_spec built"
proof -
  have sr: "legacy_default_spec\<lparr>sampleRate := ctx_sampleRate (ctx example_state)\<rparr> = legacy_default_spec"
    by (simp add: legacy_default_spec_def example_state_def example_ctx_def)
  have "\<forall>n\<in>set (chain legacy_default_spec). asset n = None
     \<and> node_type n \<in> {''input'', ''output'', ''overdrive'', ''nam_model'', ''ir_convolver''}"
    by (simp add: legacy_default_spec_def)
  from buildChain_no_asset [OF this, of example_env "ctx example_state" "cells example_state"]
  obtain built where
    "fst (buildChain example_env legacy_default_spec (ctx example_state) (cells example_state)) = Inr built"
    by blast
  with assms have "set_chain_accepts example_env outcome example_state example_set_chain
      legacy_default_spec built"
    by (simp add: set_chain_accepts_def example_set_chain_def parse_empty_object sr
        legacy_default_spec_valid)
  then show ?thesis ..
qed

lemma example_set_chain_accepted:
  "\<exists>built. set_chain_accepts example_env DiskOk example_state example_set_chain
      legacy_default_spec built"
  by (rule example_set_chain_accepts) simp

text \<open>
  Claim C5 at its failing input. The request \<open>{"cmd":"set_chain","chain":{}}\<close> arrives with
  the boot chain active, and the file system takes the whole text into the stream's buffer
  but cannot write it out when the stream is closed (the disk is full, say). The result
  of \<open>fclose\<close> is not looked at, so \<open>persistChainToDisk\<close> renames the temporary file and
  returns true. A persistence error has occurred, and the swap is not aborted: the request
  is answered with ok, the new chain is stored into the pending cell and its spec is the
  last accepted one, and the configured file holds no whole document.
\<close>

theorem set_chain_close_failure:
  "jget (fst (handleRequest example_env CloseFails example_state example_set_chain)) ''ok''
     = Some (JBool True)
   \<and> pendingChain (snd (handleRequest example_env CloseFails example_state example_set_chain))
       \<noteq> pendingChain example_state
   \<and> lastSpec (snd (handleRequest example_env CloseFails example_state example_set_chain))
       = legacy_default_spec
   \<and> disk (snd (handleRequest example_env CloseFails example_state example_set_chain))
        (configPath example_state) = Some Truncated"
proof -
  let ?r = "handleRequest example_env CloseFails example_state example_set_chain"
  have c: "jget example_set_chain ''cmd'' = Some (JString ''set_chain'')"
    by (simp add: example_set_chain_def)
  then have "is_object example_set_chain" by (simp add: example_set_chain_def)
  with c have h: "?r = handle_set_chain example_env CloseFails example_state example_set_chain"
    by (simp add: handleRequest_def)
  from example_set_chain_accepts [of CloseFails] obtain built where
    a: "set_chain_accepts example_env CloseFails example_state example_set_chain legacy_default_spec built"
    by blast
  note acc = handle_set_chain_accepted [OF a]
  from acc(1) have ok: "jget (fst ?r) ''ok'' = Some (JBool True)" by (simp add: h)
  have "pendingChain example_state = None" by (simp add: example_state_def)
  with acc(2) have pend: "pendingChain (snd ?r) \<noteq> pendingChain example_state"
    unfolding h by simp
  from acc(3) have last: "lastSpec (snd ?r) = legacy_default_spec" by (simp add: h)
  from acc(5) have "disk (snd ?r) (configPath example_state) = Some Truncated" by (simp add: h)
  with ok pend last show ?thesis by simp
qed

text \<open>
  The same request when every step succeeds, and when the short write is noticed: the
  first is answered with ok and leaves a pending chain, the second is refused and leaves
  the pending cell empty.
\<close>

lemma set_chain_example_outcomes:
  "jget (fst (handleRequest example_env DiskOk example_state example_set_chain)) ''ok''
     = Some (JBool True)
   \<and> activeChain (snd (handleRequest example_env DiskOk example_state example_set_chain))
       = Some boot_chain
   \<and> pendingChain (snd (handleRequest example_env DiskOk example_state example_set_chain)) \<noteq> None
   \<and> fst (handleRequest example_env ShortWrite example_state example_set_chain)
       = error_response ''persist failed: Short write''
   \<and> pendingChain (snd (handleRequest example_env ShortWrite example_state example_set_chain)) = None"
proof -
  have c: "jget example_set_chain ''cmd'' = Some (JString ''set_chain'')"
    by (simp add: example_set_chain_def)
  then have obj: "is_object example_set_chain" by (simp add: example_set_chain_def)
  let ?r = "handleRequest example_env DiskOk example_state example_set_chain"
  let ?q = "handleRequest example_env ShortWrite example_state example_set_chain"
  have h: "?r = handle_set_chain example_env DiskOk example_state example_set_chain"
    using c obj by (simp add: handleRequest_def)
  have hq: "?q = handle_set_chain example_env ShortWrite example_state example_set_chain"
    using c obj by (simp add: handleRequest_def)
  from example_set_chain_accepted obtain built where
    a: "set_chain_accepts example_env DiskOk example_state example_set_chain legacy_default_spec built"
    by blast
  note acc = handle_set_chain_accepted [OF a]
  from acc(1) have ok: "jget (fst ?r) ''ok'' = Some (JBool True)" by (simp add: h)
  from acc(2) have pend: "pendingChain (snd ?r) \<noteq> None" by (simp add: h)
  have "activeChain example_state = Some boot_chain" by (simp add: example_state_def)
  with acc(4) have act: "activeChain (snd ?r) = Some boot_chain" unfolding h by simp
  from a obtain cs' where
    b: "buildChain example_env legacy_default_spec (ctx example_state) (cells example_state)
          = (Inr built, cs')"
    by (cases "buildChain example_env legacy_default_spec (ctx example_state) (cells example_state)")
      (auto simp: set_chain_accepts_def example_set_chain_def parse_empty_object
        legacy_default_spec_valid legacy_default_spec_def example_state_def example_ctx_def)
  have sr: "legacy_default_spec\<lparr>sampleRate := ctx_sampleRate (ctx example_state)\<rparr> = legacy_default_spec"
    by (simp add: legacy_default_spec_def example_state_def example_ctx_def)
  have "handle_set_chain example_env ShortWrite example_state example_set_chain
      = (error_response ''persist failed: Short write'',
         example_state\<lparr>cells := cs',
           disk := (disk example_state)(configPath example_state @ ''.tmp'' \<mapsto> Truncated)\<rparr>)"
    by (simp add: handle_set_chain_def example_set_chain_def parse_empty_object sr
        legacy_default_spec_valid b persistChainToDisk_def Let_def)
  then have "fst ?q = error_response ''persist failed: Short write''"
    and "pendingChain (snd ?q) = None"
    unfolding hq by (simp_all add: example_state_def)
  with ok pend act show ?thesis by simp
qed

lemma get_chain_active:
  assumes "jget req ''cmd'' = Some (JString ''get_chain'')"
  shows "handleRequest env outcome state req =
     (case activeChain state of
        None \<Rightarrow> (error_response ''no active chain'', state)
      | Some current \<Rightarrow>
          (JObject [(''ok'', JBool True), (''chain'', chainSpecToJson (sc_spec current))], state))"
proof -
  from assms have "is_object req" by (cases req) simp_all
  with assms show ?thesis by (simp add: handleRequest_def)
qed

lemma example_specs_differ: "chainSpecToJson example_spec \<noteq> chainSpecToJson legacy_default_spec"
  by (simp add: chainSpecToJson_def example_spec_def legacy_default_spec_def nodeSpecToJson_def
      example_node_def NodeSpec_default_def)

text \<open>
  Claim C9 at its failing input. The boot chain, built of \<open>example_spec\<close>, is active;
  \<open>{"cmd":"set_chain","chain":{}}\<close> is accepted and makes the default legacy chain the
  last accepted spec; a \<open>get_chain\<close> request that follows at once, before any audio period,
  answers with \<open>example_spec\<close>, the spec of the chain still active, and not with the spec
  just accepted.
\<close>

theorem get_chain_after_set_chain:
  "jget (fst (handleRequest example_env DiskOk example_state example_set_chain)) ''ok''
     = Some (JBool True)
   \<and> lastSpec (snd (handleRequest example_env DiskOk example_state example_set_chain))
       = legacy_default_spec
   \<and> fst (handleRequest example_env DiskOk
            (snd (handleRequest example_env DiskOk example_state example_set_chain))
            example_get_chain)
       = JObject [(''ok'', JBool True), (''chain'', chainSpecToJson example_spec)]
   \<and> chainSpecToJson example_spec \<noteq> chainSpecToJson legacy_default_spec"
proof -
  let ?r = "handleRequest example_env DiskOk example_state example_set_chain"
  have c: "jget example_set_chain ''cmd'' = Some (JString ''set_chain'')"
    by (simp add: example_set_chain_def)
  then have "is_object example_set_chain" by (simp add: example_set_chain_def)
  with c have h: "?r = handle_set_chain example_env DiskOk example_state example_set_chain"
    by (simp add: handleRequest_def)
  from example_set_chain_accepted obtain built where
    a: "set_chain_accepts example_env DiskOk example_state example_set_chain legacy_default_spec built"
    by blast
  note acc = handle_set_chain_accepted [OF a]
  from acc(1) have ok: "jget (fst ?r) ''ok'' = Some (JBool True)" by (simp add: h)
  from acc(3) have last: "lastSpec (snd ?r) = legacy_default_spec" by (simp add: h)
  from acc(4) have "activeChain (snd ?r) = activeChain example_state" by (simp add: h)
  then have act: "activeChain (snd ?r) = Some boot_chain" by (simp add: example_state_def)
  have g: "jget example_get_chain ''cmd'' = Some (JString ''get_chain'')"
    by (simp add: example_get_chain_def)
  have "fst (handleRequest example_env DiskOk (snd ?r) example_get_chain)
      = JObject [(''ok'', JBool True), (''chain'', chainSpecToJson example_spec)]"
    by (simp add: get_chain_active [OF g] act boot_chain_spec)
  with ok last example_specs_differ show ?thesis by simp
qed

text \<open>
  The same defect when nothing is active: the request is accepted, and \<open>get_chain\<close>
  still fails.
\<close>

lemma get_chain_fails_after_accepted_set_chain:
  "jget (fst (handleRequest example_env DiskOk (example_state\<lparr>activeChain := None\<rparr>)
            example_set_chain)) ''ok'' = Some (JBool True)
   \<and> fst (handleRequest example_env DiskOk
            (snd (handleRequest example_env DiskOk (example_state\<lparr>activeChain := None\<rparr>)
                   example_set_chain))
            example_get_chain)
       = error_response ''no active chain''"
proof -
  let ?s = "example_state\<lparr>activeChain := None\<rparr>"
  let ?r = "handleRequest example_env DiskOk ?s example_set_chain"
  have c: "jget example_set_chain ''cmd'' = Some (JString ''set_chain'')"
    by (simp add: example_set_chain_def)
  then have "is_object example_set_chain" by (simp add: example_set_chain_def)
  with c have h: "?r = handle_set_chain example_env DiskOk ?s example_set_chain"
    by (simp add: handleRequest_def)
  from example_set_chain_accepted obtain built where
    "set_chain_accepts example_env DiskOk example_state example_set_chain legacy_default_spec built"
    by blast
  then have a: "set_chain_accepts example_env DiskOk ?s example_set_chain legacy_default_spec built"
    by (simp add: set_chain_accepts_def cong: option.case_cong sum.case_cong)
  note acc = handle_set_chain_accepted [OF a]
  from acc(1) have ok: "jget (fst ?r) ''ok'' = Some (JBool True)" by (simp add: h)
  from acc(4) have act: "activeChain (snd ?r) = None" by (simp add: h)
  have g: "jget example_get_chain ''cmd'' = Some (JString ''get_chain'')"
    by (simp add: example_get_chain_def)
  have "fst (handleRequest example_env DiskOk (snd ?r) example_get_chain)
      = error_response ''no active chain''"
    by (simp add: get_chain_active [OF g] act)
  with ok show ?thesis by simp
qed

section \<open>Verification: the overdrive node\<close>

lemma one_pole_shift:
  "one_pole a z y (Suc i) = one_pole a (z + a * (y 0 - z)) (\<lambda>j. y (Suc j)) i"
  by (induction i) simp_all

lemma overdrive_loop_samples:
  "(case overdrive_loop nd z xs of
      (zf, written) \<Rightarrow>
        length written = length xs
        \<and> (\<forall>i<length xs.
              written ! i =
                xs ! i * mixDry (od_std nd)
                + ((one_pole (od_a nd) z (\<lambda>j. softclipFast (xs ! j * pre nd)) i * toneInv nd
                    + softclipFast (xs ! i * pre nd) * tone nd) * postLin nd) * mixWet (od_std nd))
        \<and> zf = (if xs = [] then z
                 else one_pole (od_a nd) z (\<lambda>j. softclipFast (xs ! j * pre nd)) (length xs - 1)))"
proof (induction xs arbitrary: z)
  case Nil
  then show ?case by simp
next
  case (Cons s ss)
  define y where "y = (\<lambda>j. softclipFast ((s # ss) ! j * pre nd))"
  define z' where "z' = z + od_a nd * (y 0 - z)"
  obtain zf written where l: "overdrive_loop nd z' ss = (zf, written)"
    by (cases "overdrive_loop nd z' ss")
  have y': "(\<lambda>j. softclipFast (ss ! j * pre nd)) = (\<lambda>j. y (Suc j))" by (simp add: y_def)
  from Cons.IH [of z'] l
  have len: "length written = length ss"
    and smp: "\<And>i. i < length ss \<Longrightarrow> written ! i =
                ss ! i * mixDry (od_std nd)
                + ((one_pole (od_a nd) z' (\<lambda>j. y (Suc j)) i * toneInv nd
                    + y (Suc i) * tone nd) * postLin nd) * mixWet (od_std nd)"
    and fin: "zf = (if ss = [] then z' else one_pole (od_a nd) z' (\<lambda>j. y (Suc j)) (length ss - 1))"
    by (simp_all add: y' ) (simp add: y_def)
  have r: "overdrive_loop nd z (s # ss) =
      (zf, (s * mixDry (od_std nd)
            + ((z' * toneInv nd + y 0 * tone nd) * postLin nd) * mixWet (od_std nd)) # written)"
    using l by (simp add: Let_def y_def z'_def)
  have shift: "one_pole (od_a nd) z y (Suc i) = one_pole (od_a nd) z' (\<lambda>j. y (Suc j)) i" for i
    unfolding z'_def by (rule one_pole_shift)
  have z0: "one_pole (od_a nd) z y 0 = z'" by (simp add: z'_def)
  have samples: "((s * mixDry (od_std nd)
            + ((z' * toneInv nd + y 0 * tone nd) * postLin nd) * mixWet (od_std nd)) # written) ! i =
                (s # ss) ! i * mixDry (od_std nd)
                + ((one_pole (od_a nd) z y i * toneInv nd
                    + y i * tone nd) * postLin nd) * mixWet (od_std nd)"
    if "i < length (s # ss)" for i
  proof (cases i)
    case 0
    then show ?thesis by (simp add: z'_def)
  next
    case (Suc k)
    with that have "k < length ss" by simp
    from smp [OF this] show ?thesis by (simp add: Suc shift [symmetric] del: one_pole.simps)
  qed
  have final: "zf = one_pole (od_a nd) z y (length (s # ss) - 1)"
  proof (cases ss)
    case Nil
    with fin show ?thesis by (simp add: z'_def)
  next
    case (Cons t ts)
    with fin have "zf = one_pole (od_a nd) z' (\<lambda>j. y (Suc j)) (length ts)" by simp
    then show ?thesis by (simp add: Cons shift [symmetric] del: one_pole.simps)
  qed
  have yi: "softclipFast ((s # ss) ! i * pre nd) = y i" for i by (simp add: y_def)
  show ?case
    unfolding r yi using len samples final by simp
qed

lemma softclipFast_cases:
  "softclipFast x = (if 1 < x then 1 else if x < - 1 then - 1 else x - 0.3333333 * x ^ 3)"
  by (simp add: softclipFast_def power3_eq_cube algebra_simps)

lemma one_pole_cong:
  "(\<And>j. j \<le> i \<Longrightarrow> y j = y' j) \<Longrightarrow> one_pole a z y i = one_pole a z y' i"
  by (induction i) simp_all

lemma OverdriveNode_new_fields:
  "pre (OverdriveNode_new i sp drv tn odb) = 1 + clampf drv 0 1 * 20"
  "od_a (OverdriveNode_new i sp drv tn odb) = 0.02 + (1 - clampf tn 0 1) * 0.2"
  "tone (OverdriveNode_new i sp drv tn odb) = clampf tn 0 1"
  "toneInv (OverdriveNode_new i sp drv tn odb) = 1 - clampf tn 0 1"
  "postLin (OverdriveNode_new i sp drv tn odb) = dbToLin odb * levelLin sp"
  "z1 (OverdriveNode_new i sp drv tn odb) = 0"
  by (simp_all add: OverdriveNode_new_def Let_def)

text \<open>
  Claim C6 (amended). For an enabled overdrive node made with parameters \<open>drive\<close> and
  \<open>tone\<close>, whatever the state \<open>z0\<close> of its filter: \<open>preGain = 1 + drive * 20\<close> and
  \<open>a = 0.02 + (1 - tone) * 0.2\<close> with both parameters clamped to \<open>[0, 1]\<close>; sample \<open>k\<close>
  of the output is \<open>in[k] * dry + wet * mix\<close> where
  \<open>wet = (z\<^sub>k * (1 - tone) + y\<^sub>k * tone) * postLin\<close>, \<open>y\<^sub>k\<close> is the shaper applied to
  \<open>in[k] * preGain\<close> and \<open>z\<^sub>k\<close> is the one-pole low-pass of the \<open>y\<close> with coefficient \<open>a\<close>;
  the shaper returns \<open>1\<close> above \<open>1\<close>, \<open>-1\<close> below \<open>-1\<close>, and \<open>x - 0.3333333 x\<^sup>3\<close> in
  between, so a sample driven out of range comes out as \<open>\<plusminus>1\<close> and is not shaped.
  \<open>postLin\<close> is the post gain the node holds.
\<close>

theorem overdrive_samples:
  assumes "std_enabled sp" and "n \<le> length inp" and "n \<le> length out"
  shows "pre (OverdriveNode_new i sp drv tn odb) = 1 + clampf drv 0 1 * 20
     \<and> od_a (OverdriveNode_new i sp drv tn odb) = 0.02 + (1 - clampf tn 0 1) * 0.2
     \<and> (\<forall>k<n.
           snd (OverdriveNode_process ((OverdriveNode_new i sp drv tn odb)\<lparr>z1 := z0\<rparr>) inp out n) ! k
             = inp ! k * mixDry sp
               + ((one_pole (0.02 + (1 - clampf tn 0 1) * 0.2) z0
                     (\<lambda>j. softclipFast (inp ! j * (1 + clampf drv 0 1 * 20))) k
                     * (1 - clampf tn 0 1)
                   + softclipFast (inp ! k * (1 + clampf drv 0 1 * 20)) * clampf tn 0 1)
                  * postLin (OverdriveNode_new i sp drv tn odb)) * mixWet sp)
     \<and> (\<forall>x. softclipFast x
              = (if 1 < x then 1 else if x < - 1 then - 1 else x - 0.3333333 * x ^ 3))"
proof -
  define nd where "nd = (OverdriveNode_new i sp drv tn odb)\<lparr>z1 := z0\<rparr>"
  have f: "pre nd = 1 + clampf drv 0 1 * 20" "od_a nd = 0.02 + (1 - clampf tn 0 1) * 0.2"
    "tone nd = clampf tn 0 1" "toneInv nd = 1 - clampf tn 0 1"
    "postLin nd = postLin (OverdriveNode_new i sp drv tn odb)" "od_std nd = sp" "z1 nd = z0"
    by (simp_all add: nd_def OverdriveNode_new_fields)
  obtain zf written where l: "overdrive_loop nd z0 (take n inp) = (zf, written)"
    by (cases "overdrive_loop nd z0 (take n inp)")
  have r: "snd (OverdriveNode_process nd inp out n) = write_n out n (\<lambda>k. written ! k)"
    using assms(1) l by (simp add: OverdriveNode_process_def f)
  have s: "snd (OverdriveNode_process nd inp out n) ! k
             = inp ! k * mixDry sp
               + ((one_pole (0.02 + (1 - clampf tn 0 1) * 0.2) z0
                     (\<lambda>j. softclipFast (inp ! j * (1 + clampf drv 0 1 * 20))) k
                     * (1 - clampf tn 0 1)
                   + softclipFast (inp ! k * (1 + clampf drv 0 1 * 20)) * clampf tn 0 1)
                  * postLin (OverdriveNode_new i sp drv tn odb)) * mixWet sp"
    if k: "k < n" for k
  proof -
    from k assms have kl: "k < length (take n inp)" "k < length out" by simp_all
    from overdrive_loop_samples [where nd = nd and z = z0 and xs = "take n inp"] l kl(1)
    have "written ! k =
        take n inp ! k * mixDry (od_std nd)
        + ((one_pole (od_a nd) z0 (\<lambda>j. softclipFast (take n inp ! j * pre nd)) k * toneInv nd
            + softclipFast (take n inp ! k * pre nd) * tone nd) * postLin nd) * mixWet (od_std nd)"
      by simp
    moreover have "one_pole (od_a nd) z0 (\<lambda>j. softclipFast (take n inp ! j * pre nd)) k
        = one_pole (od_a nd) z0 (\<lambda>j. softclipFast (inp ! j * pre nd)) k"
      using k by (intro one_pole_cong) simp
    ultimately show ?thesis
      using k kl by (simp add: r nth_write_n f)
  qed
  from s softclipFast_cases show ?thesis
    unfolding nd_def by (simp add: OverdriveNode_new_fields)
qed

text \<open>
  Witness for C6 (amended): with \<open>drive = 1\<close>, \<open>tone = 1\<close> and no level, the input sample
  \<open>1\<close> is driven to \<open>21\<close> and comes out as \<open>1\<close>.
\<close>

theorem overdrive_samples_witness:
  "std_enabled unit_std
   \<and> snd (OverdriveNode_process ((OverdriveNode_new ''od'' unit_std 1 1 0)\<lparr>z1 := 0\<rparr>) [1] [0] 1) ! 0 = 1
   \<and> softclipFast 21 = 1"
proof -
  have e: "std_enabled unit_std" by (simp add: unit_std_def)
  have l: "(1::nat) \<le> length [1::real]" "(1::nat) \<le> length [0::real]" by simp_all
  from overdrive_samples [OF e l, of "''od''" 1 1 0 0] e show ?thesis
    by (simp add: clampf_def OverdriveNode_new_fields unit_std_def)
qed

text \<open>
  Counterexample to C6 as stated: the node built with \<open>drive = 1\<close>, \<open>tone = 1\<close>, \<open>levelDb = 0\<close>
  turns the input sample \<open>1\<close>, driven to \<open>21\<close>, into \<open>1\<close>; clamping first and shaping the
  clamped value would give \<open>2/3\<close>.
\<close>

theorem overdrive_clamp_counterexample:
  "fst (buildNode example_env hot_overdrive (example_ctx 4) example_cells)
     = Inr \<lparr>node = Overdrive (OverdriveNode_new ''od'' unit_std 1 1 0), warning = []\<rparr>
   \<and> snd (INode_process example_cells (Overdrive (OverdriveNode_new ''od'' unit_std 1 1 0)) [1] [0] 1)
       = [1]
   \<and> pre (OverdriveNode_new ''od'' unit_std 1 1 0) = 21
   \<and> softclipFast (1 * 21) = 1
   \<and> spec_softclip (1 * 21) = 2 / 3"
proof -
  have p: "parseStd hot_overdrive = unit_std"
    by (simp add: parseStd_def hot_overdrive_def example_node_def NodeSpec_default_def
        json_number_def NodeStandardParams_default_def clampf_def unit_std_def)
  have b: "fst (buildNode example_env hot_overdrive (example_ctx 4) example_cells)
     = Inr \<lparr>node = Overdrive (OverdriveNode_new ''od'' unit_std 1 1 0), warning = []\<rparr>"
    by (simp add: buildNode_def build_overdrive_def p)
      (simp add: hot_overdrive_def example_node_def NodeSpec_default_def numParam_def json_number_def)
  have pr: "pre (OverdriveNode_new ''od'' unit_std 1 1 0) = 21"
    by (simp add: OverdriveNode_new_fields clampf_def)
  have s: "softclipFast (1 * 21) = 1" by (simp add: softclipFast_def)
  have c: "spec_softclip (1 * 21) = 2 / 3" by (simp add: spec_softclip_def clampf_def)
  have o: "snd (INode_process example_cells (Overdrive (OverdriveNode_new ''od'' unit_std 1 1 0)) [1] [0] 1)
       = [1]"
    by (simp add: OverdriveNode_process_def OverdriveNode_new_def clampf_def unit_std_def
        softclipFast_def write_n_def write_range_def Let_def)
  from b o pr s c show ?thesis by simp
qed

text \<open>
  The post gain of a built overdrive: the \<open>levelDb\<close> of the params enters it twice, once
  through the standard level and once through the node's own \<open>outDb\<close>.
\<close>

lemma overdrive_levelDb_twice:
  assumes "numParam spec ''levelDb'' = Some d" and "json_number (params spec) ''outputGainDb'' = None"
  shows "postLin (OverdriveNode_new (node_id spec) (parseStd spec)
            (case numParam spec ''drive'' of Some v \<Rightarrow> v | None \<Rightarrow> 0.6)
            (case numParam spec ''tone'' of Some v \<Rightarrow> v | None \<Rightarrow> 0.5) d)
         = dbToLin d * dbToLin (clampf d (- 48) 24)"
  using assms
  by (simp add: OverdriveNode_new_fields parseStd_def Let_def numParam_def split: option.splits)

section \<open>Verification: the output gain of an overdrive\<close>

text \<open>
  The post gain of a built overdrive when the params hold both keys: \<open>outputGainDb\<close>
  replaces \<open>levelDb\<close> in the standard level, and \<open>levelDb\<close> still enters through the
  node's own \<open>outDb\<close>.
\<close>

lemma overdrive_postLin_both_keys:
  assumes "numParam spec ''levelDb'' = Some d" and "json_number (params spec) ''outputGainDb'' = Some g"
  shows "build_overdrive spec =
           \<lparr>node = Overdrive (OverdriveNode_new (node_id spec) (parseStd spec)
                     (case numParam spec ''drive'' of Some v \<Rightarrow> v | None \<Rightarrow> 0.6)
                     (case numParam spec ''tone'' of Some v \<Rightarrow> v | None \<Rightarrow> 0.5) d),
            warning = []\<rparr>"
    and "postLin (OverdriveNode_new (node_id spec) (parseStd spec)
            (case numParam spec ''drive'' of Some v \<Rightarrow> v | None \<Rightarrow> 0.6)
            (case numParam spec ''tone'' of Some v \<Rightarrow> v | None \<Rightarrow> 0.5) d)
         = dbToLin d * dbToLin (clampf g (- 48) 24)"
  using assms
  by (simp_all add: build_overdrive_def OverdriveNode_new_fields parseStd_outputGainDb Let_def)

text \<open>
  Claim C10 at its failing input. An overdrive node is built of params with
  \<open>levelDb = 20\<close> and \<open>outputGainDb = 0\<close> (and \<open>drive = 1\<close>, \<open>tone = 1\<close>). Its standard
  level is 0 dB, the \<open>outputGainDb\<close>, yet its post gain is 10, the 20 dB of \<open>levelDb\<close>:
  the input sample \<open>1\<close>, which the shaper leaves at \<open>1\<close>, comes out as \<open>10\<close>. An output
  node built of the same two gains applies the standard level alone and turns \<open>1\<close> into
  \<open>1\<close>.
\<close>

theorem outputGainDb_overdrive_levelDb:
  "(\<exists>r cs. buildNode example_env gain_overdrive (example_ctx 4) example_cells = (Inr r, cs)
       \<and> levelDb (INode_std (node r)) = 0 \<and> levelLin (INode_std (node r)) = 1
       \<and> node_samples cs (node r) [1] = [10])
   \<and> (\<exists>r cs. buildNode example_env gain_output (example_ctx 4) example_cells = (Inr r, cs)
       \<and> levelDb (INode_std (node r)) = 0 \<and> levelLin (INode_std (node r)) = 1
       \<and> node_samples cs (node r) [1] = [1])"
proof -
  have p: "parseStd gain_overdrive = unit_std"
    by (simp add: parseStd_def gain_overdrive_def example_node_def NodeSpec_default_def
        json_number_def NodeStandardParams_default_def clampf_def unit_std_def)
  have q: "parseStd gain_output = unit_std"
    by (simp add: parseStd_def gain_output_def example_node_def NodeSpec_default_def
        json_number_def NodeStandardParams_default_def clampf_def unit_std_def)
  have b: "buildNode example_env gain_overdrive (example_ctx 4) example_cells
     = (Inr \<lparr>node = Overdrive (OverdriveNode_new ''od'' unit_std 1 1 20), warning = []\<rparr>,
        example_cells)"
    by (simp add: buildNode_def build_overdrive_def p)
      (simp add: gain_overdrive_def example_node_def NodeSpec_default_def numParam_def json_number_def)
  have o: "node_samples example_cells (Overdrive (OverdriveNode_new ''od'' unit_std 1 1 20)) [1] = [10]"
    by (simp add: node_samples_def OverdriveNode_process_def OverdriveNode_new_def clampf_def
        unit_std_def softclipFast_def write_n_def write_range_def Let_def)
  have c: "buildNode example_env gain_output (example_ctx 4) example_cells
     = (Inr \<lparr>node = Output \<lparr>on_id = ''out'', on_type = ''output'', on_std = unit_std\<rparr>,
              warning = []\<rparr>, example_cells)"
    by (simp add: buildNode_def q) (simp add: gain_output_def example_node_def NodeSpec_default_def)
  have u: "node_samples example_cells
             (Output \<lparr>on_id = ''out'', on_type = ''output'', on_std = unit_std\<rparr>) [1] = [1]"
    by (simp add: node_samples_def OutputNode_process_def unit_std_def write_n_def
        write_range_def Let_def)
  from b o c u show ?thesis by (simp add: unit_std_def)
qed

section \<open>Verification: coalescing of pending chains\<close>

lemma fold_publish:
  "fold publish stores s = (if stores = [] then s else s\<lparr>shared_pending := Some (last stores)\<rparr>)"
  by (induction stores arbitrary: s) (auto simp: publish_def)

lemma exchange_pending_empty:
  "shared_pending s = None \<Longrightarrow>
     exchange_pending stores s = ((if stores = [] then None else Some (last stores)), s)"
  by (cases s) (simp add: exchange_pending_def fold_publish Let_def)

lemma exchange_pending_burst:
  "stores \<noteq> [] \<Longrightarrow> exchange_pending stores s = (Some (last stores), s\<lparr>shared_pending := None\<rparr>)"
  by (simp add: exchange_pending_def fold_publish Let_def)

lemma coalesce_coalesced:
  "shared_pending s = None \<Longrightarrow>
     coalesce p later s = (fst (coalesced p later), snd (coalesced p later), s)"
proof (induction later arbitrary: p)
  case Nil
  then show ?case by (simp add: exchange_pending_empty)
next
  case (Cons stores later)
  then show ?case by (simp add: exchange_pending_empty)
qed

lemma pick_up_latest:
  assumes "burst \<noteq> []"
  shows "pick_up (burst # later) s =
     (Some (fst (coalesced (last burst) later)), snd (coalesced (last burst) later),
      s\<lparr>shared_pending := None,
        deferredSwap := map_option (\<lambda>d. last burst) (deferredSwap s)\<rparr>)"
proof (cases "deferredSwap s")
  case None
  with assms show ?thesis
    by (simp add: pick_up_def next_stores_def exchange_pending_burst coalesce_coalesced)
next
  case (Some d)
  with assms show ?thesis
    by (simp add: pick_up_def next_stores_def exchange_pending_burst coalesce_coalesced)
qed

lemma retire_none [simp]: "retireChainFromAudioThread q None = (True, q, None)"
  by (simp add: retireChainFromAudioThread_def)

lemma retire_space:
  "retireQueueHasSpace q \<Longrightarrow> retireChainFromAudioThread q (Some a) = (True, enqueue a q, None)"
  by (simp add: retireChainFromAudioThread_def retireQueueHasSpace_def enqueue_def)

lemma install_space:
  assumes "retireQueueHasSpace (retire s)" "active s = Some a"
  shows "install (Some c) s =
     s\<lparr>active := Some c, shared_active := Some c,
       chainSwapCount := (chainSwapCount s + 1) mod 2 ^ 64,
       deferredRetire := None, retire := enqueue a (retire s)\<rparr>"
  using assms by (simp add: install_def Let_def retire_space)

lemma retired_enqueue:
  "retired (s\<lparr>deferredRetire := None, retire := enqueue a (retire s)\<rparr>) \<subseteq> insert a (retired s)"
  by (auto simp: retired_def enqueue_def split: if_splits)


text \<open>
  The period in which a burst is picked up, in full. Chain \<open>a\<close> is active, no retirement
  is held over and the ring has space; a deferred swap may be held. Unless a ramp's
  fade-in is in progress, the chain the burst coalesces to is installed.
\<close>

lemma audio_period_burst:
  assumes "active s = Some a" "deferredRetire s = None"
    and "retireQueueHasSpace (retire s)"
    and "burst \<noteq> []"
    and "R = 0 \<or> passthrough \<or> swapState s \<noteq> FadeIn"
  shows "audio_period R passthrough (burst # later) s =
     (if passthrough then None
      else if R = 0 then Some (fst (coalesced (last burst) later))
      else Some a,
      if R = 0 \<or> passthrough
      then installed a (fst (coalesced (last burst) later)) (snd (coalesced (last burst) later)) s
      else (installed a (fst (coalesced (last burst) later)) (snd (coalesced (last burst) later)) s)
             \<lparr>swapNext := None, swapState := FadeIn\<rparr>)"
proof -
  define c where "c = fst (coalesced (last burst) later)"
  define leftover where "leftover = snd (coalesced (last burst) later)"
  define s1 where "s1 = s\<lparr>shared_pending := None,
                         deferredSwap := map_option (\<lambda>d. last burst) (deferredSwap s)\<rparr>"
  have s0: "(case retireChainFromAudioThread (retire s) (deferredRetire s) of
                  (ok, q, held) \<Rightarrow> s\<lparr>deferredRetire := held, retire := q\<rparr>) = s"
    using assms(2) by simp
  have pu: "pick_up (burst # later) s = (Some c, leftover, s1)"
    unfolding c_def leftover_def s1_def using assms(4) by (rule pick_up_latest)
  have can: "active s1 = Some a" "deferredRetire s1 = None" "retireQueueHasSpace (retire s1)"
    using assms by (simp_all add: s1_def)
  have pub: "fold publish (concat leftover) t = t\<lparr>shared_pending := cell_after leftover\<rparr>"
    if "shared_pending t = None" for t :: "'a audio_loop"
    using that by (cases t) (simp add: fold_publish cell_after_def)
  show ?thesis
    unfolding c_def [symmetric] leftover_def [symmetric]
  proof (cases "R = 0 \<or> passthrough")
    case True
    have sr: "swap_request R passthrough c s1 = install (Some c) (s1\<lparr>deferredSwap := None\<rparr>)"
      using True can by (auto simp: swap_request_def Let_def)
    have i: "install (Some c) (s1\<lparr>deferredSwap := None\<rparr>) =
        s\<lparr>shared_pending := None, deferredSwap := None, active := Some c, shared_active := Some c,
          chainSwapCount := (chainSwapCount s + 1) mod 2 ^ 64,
          deferredRetire := None, retire := enqueue a (retire s)\<rparr>"
      using can by (subst install_space [where a = a]) (simp_all add: s1_def)
    have rs: "ramp_step R passthrough t = t" for t :: "'a audio_loop"
      using True by (auto simp: ramp_step_def)
    have "audio_period R passthrough (burst # later) s =
        (let s2 = swap_request R passthrough c s1;
             processed = (if \<not> passthrough then active s2 else None);
             s3 = ramp_step R passthrough s2
         in (processed, fold publish (concat leftover) s3))"
      by (simp add: audio_period_def s0 pu)
    also have "\<dots> = (if \<not> passthrough then Some c else None, installed a c leftover s)"
      unfolding sr rs Let_def i by (simp add: pub installed_def)
    finally show "audio_period R passthrough (burst # later) s =
       (if passthrough then None else if R = 0 then Some c else Some a,
        if R = 0 \<or> passthrough then installed a c leftover s
        else (installed a c leftover s)\<lparr>swapNext := None, swapState := FadeIn\<rparr>)"
      using True by auto
  next
    case False
    then have R: "R > 0" "\<not> passthrough" and st: "swapState s \<noteq> FadeIn"
      using assms(5) by auto
    have sr: "swap_request R passthrough c s1 =
        s1\<lparr>deferredSwap := None, swapNext := Some c, swapState := FadeOut\<rparr>"
      using R can st by (cases "swapState s") (auto simp: swap_request_def Let_def s1_def)
    let ?s2 = "s1\<lparr>deferredSwap := None, swapNext := Some c, swapState := FadeOut\<rparr>"
    have i: "install (Some c) (?s2\<lparr>swapNext := None\<rparr>) =
        s\<lparr>shared_pending := None, deferredSwap := None, swapNext := None, swapState := FadeOut,
          active := Some c, shared_active := Some c,
          chainSwapCount := (chainSwapCount s + 1) mod 2 ^ 64,
          deferredRetire := None, retire := enqueue a (retire s)\<rparr>"
      using can by (subst install_space [where a = a]) (simp_all add: s1_def)
    have rs: "ramp_step R passthrough ?s2 = (install (Some c) (?s2\<lparr>swapNext := None\<rparr>))\<lparr>swapState := FadeIn\<rparr>"
      using R can by (simp add: ramp_step_def)
    have "audio_period R passthrough (burst # later) s =
        (let s2 = swap_request R passthrough c s1;
             processed = (if \<not> passthrough then active s2 else None);
             s3 = ramp_step R passthrough s2
         in (processed, fold publish (concat leftover) s3))"
      by (simp add: audio_period_def s0 pu)
    also have "\<dots> = (if \<not> passthrough then Some a else None,
           (installed a c leftover s)\<lparr>swapNext := None, swapState := FadeIn\<rparr>)"
      unfolding sr rs Let_def i using assms(1) by (simp add: pub installed_def s1_def)
    finally show "audio_period R passthrough (burst # later) s =
       (if passthrough then None else if R = 0 then Some c else Some a,
        if R = 0 \<or> passthrough then installed a c leftover s
        else (installed a c leftover s)\<lparr>swapNext := None, swapState := FadeIn\<rparr>)"
      using False by auto
  qed
qed







text \<open>
  A held deferred swap is superseded by the burst: with chain 9 waiting as a deferred swap,
  chains 11 and 12 published, chain 12 is installed.
\<close>

lemma deferred_swap_superseded:
  "active (snd (audio_period 0 False [[11, 12]] ((initial_loop 10)\<lparr>deferredSwap := Some 9\<rparr>)))
     = Some 12
   \<and> chainSwapCount (snd (audio_period 0 False [[11, 12]]
        ((initial_loop 10)\<lparr>deferredSwap := Some 9\<rparr>))) = 1"
proof -
  let ?s = "(initial_loop 10)\<lparr>deferredSwap := Some 9\<rparr>"
  have a: "active ?s = Some 10" "deferredRetire ?s = None"
    by (simp_all add: initial_loop_def)
  have sp: "retireQueueHasSpace (retire ?s)"
    by (simp add: initial_loop_def retireQueueHasSpace_def u64_sub_def kRetireQueueSize_def)
  have b: "[11, 12 :: nat] \<noteq> []" by simp
  have m: "(0::nat) = 0 \<or> False \<or> swapState ?s \<noteq> FadeIn" by simp
  from audio_period_burst [OF a sp b m, of "[]"] show ?thesis
    by (simp add: installed_def initial_loop_def)
qed

text \<open>
  The state left out above. With the ramp on (two samples, say), chain 11 is published and
  installed through a fade-out, which leaves the ramp in fade-in; chain 12, published
  before the next period, is put into \<open>swapNext\<close> while the fade-in ends, and the ramp
  is idle after it: chain 12 is not installed in that period, nor in a later one in which
  nothing is published. It stays in \<open>swapNext\<close>.
\<close>

lemma fade_in_parks_chain:
  "snd (audio_period 2 False [[11]] (initial_loop 10))
     = (installed 10 11 [] (initial_loop 10))\<lparr>swapNext := None, swapState := FadeIn\<rparr>"
  "snd (audio_period 2 False [[12]] (snd (audio_period 2 False [[11]] (initial_loop 10))))
     = (installed 10 11 [] (initial_loop 10))\<lparr>swapNext := Some 12, swapState := Idle\<rparr>"
  "audio_period 2 False []
      ((installed 10 11 [] (initial_loop 10))\<lparr>swapNext := Some 12, swapState := Idle\<rparr>)
     = (Some 11, (installed 10 11 [] (initial_loop 10))\<lparr>swapNext := Some 12, swapState := Idle\<rparr>)"
proof -
  have a: "active (initial_loop 10) = Some 10" "deferredRetire (initial_loop 10) = None"
    by (simp_all add: initial_loop_def)
  have sp: "retireQueueHasSpace (retire (initial_loop 10))"
    by (simp add: initial_loop_def retireQueueHasSpace_def u64_sub_def kRetireQueueSize_def)
  have b: "[11 :: nat] \<noteq> []" by simp
  have m: "(2::nat) = 0 \<or> False \<or> swapState (initial_loop 10) \<noteq> FadeIn"
    by (simp add: initial_loop_def)
  from audio_period_burst [OF a sp b m, of "[]"]
  show 1: "snd (audio_period 2 False [[11]] (initial_loop 10))
     = (installed 10 11 [] (initial_loop 10))\<lparr>swapNext := None, swapState := FadeIn\<rparr>"
    by simp
  show "snd (audio_period 2 False [[12]] (snd (audio_period 2 False [[11]] (initial_loop 10))))
     = (installed 10 11 [] (initial_loop 10))\<lparr>swapNext := Some 12, swapState := Idle\<rparr>"
    unfolding 1
    by (simp add: audio_period_def pick_up_def next_stores_def exchange_pending_def publish_def
        swap_request_def install_def ramp_step_def retireChainFromAudioThread_def
        retireQueueHasSpace_def u64_sub_def kRetireQueueSize_def initial_loop_def Let_def
        installed_def enqueue_def cell_after_def)
  show "audio_period 2 False []
      ((installed 10 11 [] (initial_loop 10))\<lparr>swapNext := Some 12, swapState := Idle\<rparr>)
     = (Some 11, (installed 10 11 [] (initial_loop 10))\<lparr>swapNext := Some 12, swapState := Idle\<rparr>)"
    by (simp add: audio_period_def pick_up_def next_stores_def exchange_pending_def publish_def
        swap_request_def install_def ramp_step_def retireChainFromAudioThread_def
        retireQueueHasSpace_def u64_sub_def kRetireQueueSize_def initial_loop_def Let_def
        installed_def enqueue_def cell_after_def)
qed

text \<open>
  Also left out above: a chain that the audio thread has picked up and that a newer one
  supersedes during the drain. With chain 11 in the cell at the first exchange and chain
  12 published before the drain's exchange, chain 12 is installed; chain 11 was held by
  the audio thread alone, and after the period no pointer refers to it and the ring does
  not hold it.
\<close>

lemma drain_supersedes_chain:
  "active (snd (audio_period 0 False [[11], [12]] (initial_loop 10))) = Some 12
   \<and> chainSwapCount (snd (audio_period 0 False [[11], [12]] (initial_loop 10))) = 1
   \<and> 11 \<notin> handles_held (snd (audio_period 0 False [[11], [12]] (initial_loop 10)))"
proof -
  have r: "snd (audio_period 0 False [[11], [12]] (initial_loop 10)) =
     (initial_loop 10)\<lparr>active := Some 12, shared_active := Some 12, chainSwapCount := 1,
        retire := \<lparr>gRetireQueue = (\<lambda>i. if i = 0 then Some 10 else None), gRetireWrite = 1,
                   gRetireRead = 0, gRetireQueueFull = 0\<rparr>\<rparr>"
    by (simp add: audio_period_def pick_up_def next_stores_def exchange_pending_def publish_def
        swap_request_def install_def ramp_step_def retireChainFromAudioThread_def
        retireQueueHasSpace_def u64_sub_def kRetireQueueSize_def initial_loop_def Let_def
        fun_eq_iff)
  have q: "(\<Union>i<kRetireQueueSize. set_option (if i = 0 then Some (10::nat) else None)) = {10}"
    by (auto simp: kRetireQueueSize_def split: if_splits)
  show ?thesis
    unfolding r by (simp add: handles_held_def initial_loop_def q)
qed

section \<open>Verification: the convolver round trip\<close>

text \<open>
  The transform pair: the inverse transform of the forward transform of \<open>N\<close> real samples
  gives the samples back, times \<open>N\<close>.
\<close>

lemma cis_root_neq_1:
  fixes d :: int
  assumes "0 < N" "d \<noteq> 0" "\<bar>d\<bar> < int N"
  shows "cis (2 * pi * real_of_int d / real N) \<noteq> 1"
proof
  assume "cis (2 * pi * real_of_int d / real N) = 1"
  then have "Re (cis (2 * pi * real_of_int d / real N)) = Re 1" by (rule arg_cong)
  then have "cos (2 * pi * real_of_int d / real N) = 1" by simp
  then obtain k :: int where k: "2 * pi * real_of_int d / real N = real_of_int k * 2 * pi"
    unfolding cos_one_2pi_int by blast
  have "real_of_int d / real N = real_of_int k"
  proof -
    from k have "(2 * pi) * (real_of_int d / real N) = (2 * pi) * real_of_int k" by (simp add: mult_ac)
    moreover have "2 * pi \<noteq> 0" by simp
    ultimately show ?thesis by (simp only: mult_cancel_left) simp
  qed
  then have "real_of_int d = real_of_int (k * int N)" using assms(1) by (simp add: field_simps)
  then have d: "d = k * int N" by (simp only: of_int_eq_iff)
  show False
  proof (cases "k = 0")
    case True
    with d assms(2) show False by simp
  next
    case False
    then have "1 \<le> \<bar>k\<bar>" by simp
    then have "int N \<le> \<bar>k\<bar> * int N" by (simp add: mult_le_cancel_right1)
    also have "\<dots> = \<bar>d\<bar>" by (simp add: d abs_mult)
    finally show False using assms(3) by simp
  qed
qed

lemma cis_root_sum:
  fixes d :: int
  assumes "0 < N" "\<bar>d\<bar> < int N"
  shows "(\<Sum>b<N. cis (2 * pi * real b * real_of_int d / real N))
       = (if d = 0 then of_nat N else 0)"
proof (cases "d = 0")
  case True
  then show ?thesis by simp
next
  case False
  define w where "w = cis (2 * pi * real_of_int d / real N)"
  have w1: "w \<noteq> 1" unfolding w_def using assms(1) False assms(2) by (rule cis_root_neq_1)
  have pw: "cis (2 * pi * real b * real_of_int d / real N) = w ^ b" for b
    by (simp add: w_def DeMoivre mult_ac)
  have "w ^ N = cis (2 * pi * real_of_int d)"
    using assms(1) by (simp add: w_def DeMoivre)
  also have "\<dots> = 1" by (rule cis_multiple_2pi) simp
  finally have wN: "w ^ N = 1" .
  have "(\<Sum>b<N. cis (2 * pi * real b * real_of_int d / real N)) = (\<Sum>b<N. w ^ b)"
    by (simp add: pw)
  also have "\<dots> = (w ^ N - 1) / (w - 1)" using w1 by (rule geometric_sum)
  also have "\<dots> = 0" by (simp add: wN)
  finally show ?thesis using False by simp
qed

lemma length_fftw_r2c [simp]: "length (fftw_r2c N x) = N div 2 + 1"
  by (simp add: fftw_r2c_def)

lemma nth_fftw_r2c: "b \<le> N div 2 \<Longrightarrow> fftw_r2c N x ! b = dft N x b"
  by (simp add: fftw_r2c_def dft_def del: upt_Suc)

lemma length_fftw_c2r [simp]: "length (fftw_c2r N Y) = N"
  by (simp add: fftw_c2r_def)

lemma dft_mirror:
  assumes "b < N"
  shows "cnj (dft N x (N - b)) = dft N x b"
proof -
  have "cnj (cis (- (2 * pi * real (N - b) * real n / real N)))
      = cis (- (2 * pi * real b * real n / real N))" for n
  proof -
    have N: "real N \<noteq> 0" using assms by simp
    have "2 * pi * real (N - b) * real n / real N
        = 2 * pi * real n - 2 * pi * real b * real n / real N"
      using assms N by (simp add: of_nat_diff field_simps)
    then have "cnj (cis (- (2 * pi * real (N - b) * real n / real N)))
        = cis (2 * pi * real n + - (2 * pi * real b * real n / real N))"
      by (simp add: cis_cnj)
    also have "\<dots> = cis (2 * pi * real n) * cis (- (2 * pi * real b * real n / real N))"
      by (rule cis_mult [symmetric])
    also have "cis (2 * pi * real n) = 1" by (rule cis_multiple_2pi) simp
    finally show ?thesis by simp
  qed
  then show ?thesis by (simp add: dft_def)
qed

lemma hermitian_bin_r2c:
  assumes "b < N"
  shows "hermitian_bin N (fftw_r2c N x) b = dft N x b"
proof (cases "2 * b \<le> N")
  case True
  then have "b \<le> N div 2" by simp
  with True show ?thesis by (simp add: hermitian_bin_def nth_fftw_r2c)
next
  case False
  then have "N - b \<le> N div 2" by simp
  with False assms show ?thesis by (simp add: hermitian_bin_def nth_fftw_r2c dft_mirror)
qed

lemma dft_inverse:
  assumes "m < N"
  shows "(\<Sum>b<N. dft N x b * cis (2 * pi * real b * real m / real N))
       = complex_of_real (real N * x ! m)"
proof -
  have N: "0 < N" using assms by simp
  have "(\<Sum>b<N. dft N x b * cis (2 * pi * real b * real m / real N))
      = (\<Sum>b<N. \<Sum>n<N. complex_of_real (x ! n)
            * cis (2 * pi * real b * real_of_int (int m - int n) / real N))"
  proof (intro sum.cong refl)
    fix b
    have "cis (- (2 * pi * real b * real n / real N)) * cis (2 * pi * real b * real m / real N)
        = cis (2 * pi * real b * real_of_int (int m - int n) / real N)" for n
      by (simp add: cis_mult of_int_diff right_diff_distrib left_diff_distrib diff_divide_distrib)
    then show "dft N x b * cis (2 * pi * real b * real m / real N)
        = (\<Sum>n<N. complex_of_real (x ! n)
            * cis (2 * pi * real b * real_of_int (int m - int n) / real N))"
      by (simp add: dft_def sum_distrib_right mult.assoc)
  qed
  also have "\<dots> = (\<Sum>n<N. complex_of_real (x ! n)
        * (\<Sum>b<N. cis (2 * pi * real b * real_of_int (int m - int n) / real N)))"
    by (subst sum.swap) (simp add: sum_distrib_left)
  also have "\<dots> = (\<Sum>n<N. complex_of_real (x ! n) * (if n = m then of_nat N else 0))"
  proof (intro sum.cong refl)
    fix n assume "n \<in> {..<N}"
    then have "\<bar>int m - int n\<bar> < int N" using assms by auto
    from cis_root_sum [OF N this]
    show "complex_of_real (x ! n)
          * (\<Sum>b<N. cis (2 * pi * real b * real_of_int (int m - int n) / real N))
        = complex_of_real (x ! n) * (if n = m then of_nat N else 0)"
      by auto
  qed
  also have "\<dots> = (\<Sum>n\<in>{..<N}. if n = m then complex_of_real (x ! n) * of_nat N else 0)"
    by (intro sum.cong refl) simp
  also have "\<dots> = complex_of_real (x ! m) * of_nat N"
    using assms by (simp add: sum.delta)
  finally show ?thesis by (simp add: mult.commute)
qed

lemma fftw_c2r_r2c:
  "fftw_c2r N (fftw_r2c N x) = map (\<lambda>n. real N * x ! n) [0..<N]"
proof -
  have "Re (\<Sum>b<N. hermitian_bin N (fftw_r2c N x) b * cis (2 * pi * real b * real n / real N))
      = real N * x ! n" if "n < N" for n
  proof -
    have "(\<Sum>b<N. hermitian_bin N (fftw_r2c N x) b * cis (2 * pi * real b * real n / real N))
        = (\<Sum>b<N. dft N x b * cis (2 * pi * real b * real n / real N))"
      by (intro sum.cong refl) (simp add: hermitian_bin_r2c)
    then show ?thesis by (simp add: dft_inverse [OF that])
  qed
  then show ?thesis by (simp add: fftw_c2r_def)
qed

lemma length_ir_tin [simp]: "length (ir_tin ir B k) = 2 * B"
  by (simp add: ir_tin_def)

lemma nth_ir_tin:
  "n < 2 * B \<Longrightarrow>
     ir_tin ir B k ! n = (if n < B \<and> k * B + n < length ir then ir ! (k * B + n) else 0)"
  by (auto simp: ir_tin_def nth_write_n)

lemma length_unit_impulse [simp]: "length (unit_impulse B) = B"
  by (simp add: unit_impulse_def)

lemma nth_unit_impulse: "i < B \<Longrightarrow> unit_impulse B ! i = (if i = 0 then 1 else 0)"
  by (simp add: unit_impulse_def)

lemma tin_impulse:
  assumes "length t = 2 * B"
  shows "write_range (memcpy t (unit_impulse B) B) B (B + B) (\<lambda>i. 0) = unit_impulse (2 * B)"
  using assms
  by (intro nth_equalityI) (auto simp: nth_write_range nth_memcpy nth_unit_impulse)

lemma tin_zero:
  assumes "length t = 2 * B"
  shows "write_range (memcpy t (replicate B 0) B) B (B + B) (\<lambda>i. 0) = replicate (2 * B) 0"
  using assms
  by (intro nth_equalityI) (auto simp: nth_write_range nth_memcpy)

lemma nth_Cons_replicate: "i \<le> n \<Longrightarrow> (c # replicate n c) ! i = c"
  by (cases i) simp_all

lemma dft_impulse:
  assumes "0 < N"
  shows "dft N (unit_impulse N) b = 1"
proof -
  have "dft N (unit_impulse N) b
      = (\<Sum>n\<in>{..<N}. if n = 0 then cis (- (2 * pi * real b * real n / real N)) else 0)"
    unfolding dft_def by (intro sum.cong refl) (simp add: nth_unit_impulse)
  also have "\<dots> = 1" using assms by (simp add: sum.delta)
  finally show ?thesis .
qed

lemma r2c_impulse:
  assumes "0 < N"
  shows "fftw_r2c N (unit_impulse N) = replicate (N div 2 + 1) 1"
  by (intro nth_equalityI) (simp_all add: nth_fftw_r2c dft_impulse [OF assms] nth_Cons_replicate)

lemma r2c_zero: "fftw_r2c N (replicate N 0) = replicate (N div 2 + 1) 0"
proof (intro nth_equalityI)
  show "length (fftw_r2c N (replicate N 0)) = length (replicate (N div 2 + 1) (0::complex))" by simp
next
  fix b assume "b < length (fftw_r2c N (replicate N 0))"
  then have b: "b \<le> N div 2" by simp
  have "dft N (replicate N 0) b = 0" by (simp add: dft_def)
  with b show "fftw_r2c N (replicate N 0) ! b = replicate (N div 2 + 1) 0 ! b"
    by (simp add: nth_fftw_r2c nth_Cons_replicate)
qed

lemma cmul_acc_one [simp]: "cmul_acc 0 1 h = h"
  by (simp add: cmul_acc_def Let_def complex_eq_iff)

lemma cmul_acc_zero [simp]: "cmul_acc y 0 h = y"
  by (simp add: cmul_acc_def Let_def complex_eq_iff)

text \<open>
  The convolver after \<open>init\<close>: partition \<open>k\<close> of the impulse response, zero-padded to two
  blocks and transformed, is in \<open>mH[k]\<close>; the ring of input spectra and the overlap are
  zero.
\<close>

lemma init_partition_eq:
  assumes "mBlock c = int B" "mFFT c = 2 * int B" "length (mTimeIn c) = 2 * B"
  shows "init_partition ir k c =
     c\<lparr>mTimeIn := ir_tin ir B k,
       mX := (mX c)[0 := fftw_r2c (2 * B) (ir_tin ir B k)],
       mH := (mH c)[k := fftw_r2c (2 * B) (ir_tin ir B k)]\<rparr>"
proof -
  have "nat (2 * int B) = 2 * B" by simp
  with assms show ?thesis
    by (simp add: init_partition_def Let_def ir_tin_def)
qed

lemma fold_init_partition:
  assumes "mBlock c = int B" "mFFT c = 2 * int B" "length (mTimeIn c) = 2 * B"
    and "m \<le> length (mH c)"
  shows "\<exists>T X' H'. fold (init_partition ir) [0..<m] c = c\<lparr>mTimeIn := T, mX := X', mH := H'\<rparr>
     \<and> length T = 2 * B \<and> length H' = length (mH c)
     \<and> (\<forall>k<m. H' ! k = fftw_r2c (2 * B) (ir_tin ir B k))"
  using assms(4)
proof (induction m)
  case 0
  have "fold (init_partition ir) [0..<0] c = c\<lparr>mTimeIn := mTimeIn c, mX := mX c, mH := mH c\<rparr>"
    by simp
  with assms(3) show ?case by blast
next
  case (Suc m)
  then obtain T X' H' where f: "fold (init_partition ir) [0..<m] c = c\<lparr>mTimeIn := T, mX := X', mH := H'\<rparr>"
    and l: "length T = 2 * B" "length H' = length (mH c)"
    and h: "\<forall>k<m. H' ! k = fftw_r2c (2 * B) (ir_tin ir B k)"
    by auto
  let ?c = "c\<lparr>mTimeIn := T, mX := X', mH := H'\<rparr>"
  have "fold (init_partition ir) [0..<Suc m] c = init_partition ir m ?c"
    by (simp add: f)
  also have "\<dots> = ?c\<lparr>mTimeIn := ir_tin ir B m,
       mX := (mX ?c)[0 := fftw_r2c (2 * B) (ir_tin ir B m)],
       mH := (mH ?c)[m := fftw_r2c (2 * B) (ir_tin ir B m)]\<rparr>"
    using assms(1,2) l by (intro init_partition_eq) simp_all
  also have "\<dots> = c\<lparr>mTimeIn := ir_tin ir B m,
       mX := X'[0 := fftw_r2c (2 * B) (ir_tin ir B m)],
       mH := H'[m := fftw_r2c (2 * B) (ir_tin ir B m)]\<rparr>"
    by simp
  finally have e: "fold (init_partition ir) [0..<Suc m] c = c\<lparr>mTimeIn := ir_tin ir B m,
       mX := X'[0 := fftw_r2c (2 * B) (ir_tin ir B m)],
       mH := H'[m := fftw_r2c (2 * B) (ir_tin ir B m)]\<rparr>" .
  have "\<forall>k<Suc m. H'[m := fftw_r2c (2 * B) (ir_tin ir B m)] ! k = fftw_r2c (2 * B) (ir_tin ir B k)"
    using h l Suc.prems by (auto simp: nth_list_update less_Suc_eq)
  with e l show ?case
    by (intro exI [of _ "ir_tin ir B m"] exI [of _ "X'[0 := fftw_r2c (2 * B) (ir_tin ir B m)]"]
        exI [of _ "H'[m := fftw_r2c (2 * B) (ir_tin ir B m)]"]) simp
qed

lemma parts_le:
  assumes "0 < B" "0 < L"
  shows "(L + B - 1) div B \<le> (L::nat)" and "0 < (L + B - 1) div B"
proof -
  from assms obtain b l where B: "B = Suc b" and L: "L = Suc l"
    by (metis Suc_pred)
  have "L + B - 1 \<le> L * B" unfolding B L by simp
  then have "(L + B - 1) div B \<le> (L * B) div B" by (rule div_le_mono)
  also have "\<dots> = L" using assms(1) by simp
  finally show "(L + B - 1) div B \<le> L" .
  have "B \<le> L + B - 1" unfolding B L by simp
  then have "B div B \<le> (L + B - 1) div B" by (rule div_le_mono)
  then show "0 < (L + B - 1) div B" using assms(1) by simp
qed

lemma parts_count:
  assumes "0 < B" "h \<noteq> []" "length h < 2 ^ 31"
  shows "to_int32 ((int (length h) + int B - 1) div int B) = int ((length h + B - 1) div B)"
    and "0 < (length h + B - 1) div B"
proof -
  from assms(2) have L: "0 < length h" by simp
  have "int (length h) + int B - 1 = int (length h + B - 1)" using assms(1) by simp
  then have e: "(int (length h) + int B - 1) div int B = int ((length h + B - 1) div B)"
    by (simp only: zdiv_int)
  from parts_le(1) [OF assms(1) L] assms(3)
  have "(length h + B - 1) div B < 2 ^ 31" by simp
  then have "int ((length h + B - 1) div B) < 2 ^ 31"
    by (metis of_nat_less_iff of_nat_numeral of_nat_power)
  then show "to_int32 ((int (length h) + int B - 1) div int B) = int ((length h + B - 1) div B)"
    unfolding e by (intro to_int32_id) simp_all
  show "0 < (length h + B - 1) div B" by (rule parts_le(2) [OF assms(1) L])
qed

lemma conv_init_inv:
  assumes "0 < B" "h \<noteq> []" "length h < 2 ^ 31"
  shows "fst (conv_init True h (int B))"
    and "conv_inv h B ((length h + B - 1) div B) 0 (snd (conv_init True h (int B)))"
proof -
  define P where "P = (length h + B - 1) div B"
  note pc = parts_count [OF assms, folded P_def]
  define c4 where "c4 = conv_clear\<lparr>mBlock := int B, mFFT := 2 * int B, mBins := int B + 1,
      mParts := int P, mTimeIn := replicate (2 * B) 0, mTimeOut := replicate (2 * B) 0,
      mOverlap := replicate B 0, mFreqY := replicate (B + 1) 0,
      mH := replicate P (replicate (B + 1) 0), mX := replicate P (replicate (B + 1) 0)\<rparr>"
  have c4: "mBlock c4 = int B" "mFFT c4 = 2 * int B" "length (mTimeIn c4) = 2 * B"
    "P \<le> length (mH c4)"
    by (simp_all add: c4_def)
  from fold_init_partition [OF c4, of h]
  obtain T X' H' where f: "fold (init_partition h) [0..<P] c4 = c4\<lparr>mTimeIn := T, mX := X', mH := H'\<rparr>"
    and l: "length T = 2 * B" "length H' = length (mH c4)"
    and hk: "\<forall>k<P. H' ! k = fftw_r2c (2 * B) (ir_tin h B k)"
    by blast
  have H': "H' = map (\<lambda>k. fftw_r2c (2 * B) (ir_tin h B k)) [0..<P]"
    using l hk by (intro nth_equalityI) (simp_all add: c4_def)
  have n: "nat (2 * int B) = 2 * B" "nat (int B + 1) = B + 1" by simp_all
  have b: "(2 * int B) div 2 + 1 = int B + 1" by simp
  have r: "conv_init True h (int B) =
     (True, c4\<lparr>mTimeIn := T, mX := replicate P (replicate (B + 1) 0), mH := H',
                mWrite := 0, mReady := True\<rparr>)"
    using assms(1) pc f
    by (simp add: conv_init_def Let_def P_def [symmetric] b n c4_def [symmetric] del: upt_Suc)
      (simp add: c4_def)
  show "fst (conv_init True h (int B))" by (simp add: r)
  show "conv_inv h B ((length h + B - 1) div B) 0 (snd (conv_init True h (int B)))"
    unfolding P_def [symmetric] r
    by (simp add: conv_inv_def c4_def l H' del: upt_Suc replicate_Suc)
qed

text \<open>
  One \<open>processBlock\<close> call on the way: the spectrum of the unit impulse, all ones, sits
  in slot 0 of the ring and every other slot is zero, so the sum over the partitions
  picks the spectrum of partition \<open>j\<close> in block \<open>j\<close>.
\<close>

lemma ring_update_zero:
  assumes "0 < j" "j < P"
  shows "((replicate P (replicate n (0::complex)))[0 := replicate n 1])[j := replicate n 0]
       = (replicate P (replicate n 0))[0 := replicate n 1]"
  using assms by (intro nth_equalityI) (auto simp: nth_list_update)

lemma ring_nth:
  assumes "i < P"
  shows "(replicate P (replicate n (0::complex)))[0 := replicate n 1] ! i
       = (if i = 0 then replicate n 1 else replicate n 0)"
  using assms by (auto simp: nth_list_update)

lemma accumulate_zero:
  assumes "mBins c = int n" "length Y = n" "X ! nat (if mWrite c - int k < 0 then mWrite c - int k + mParts c
             else mWrite c - int k) = replicate n 0"
  shows "accumulate_partition c X k Y = Y"
  using assms
  by (intro nth_equalityI) (simp_all add: accumulate_partition_def Let_def nth_write_n)

lemma accumulate_one:
  assumes "mBins c = int n" "length (mH c ! k) = n"
    and "X ! nat (if mWrite c - int k < 0 then mWrite c - int k + mParts c
             else mWrite c - int k) = replicate n 1"
  shows "accumulate_partition c X k (replicate n 0) = mH c ! k"
  using assms
  by (intro nth_equalityI) (simp_all add: accumulate_partition_def Let_def nth_write_n)

lemma accumulate_fold:
  assumes w: "mWrite c = int j" and p: "mParts c = int P" and b: "mBins c = int n"
    and j: "j < P" and m: "m \<le> P" and len: "\<forall>k<P. length (mH c ! k) = n"
  shows "fold (accumulate_partition c ((replicate P (replicate n 0))[0 := replicate n 1]))
           [0..<m] (replicate n 0)
       = (if j < m then mH c ! j else replicate n 0)"
  using m
proof (induction m)
  case 0
  then show ?case by simp
next
  case (Suc m)
  let ?X = "(replicate P (replicate n (0::complex)))[0 := replicate n 1]"
  let ?Y = "if j < m then mH c ! j else replicate n 0"
  from Suc have mP: "m < P" and IH: "fold (accumulate_partition c ?X) [0..<m] (replicate n 0) = ?Y"
    by simp_all
  have f: "fold (accumulate_partition c ?X) [0..<Suc m] (replicate n 0) = accumulate_partition c ?X m ?Y"
    by (simp add: IH)
  consider (lt) "m < j" | (eq) "m = j" | (gt) "j < m" by linarith
  then have "accumulate_partition c ?X m ?Y = (if j < Suc m then mH c ! j else replicate n 0)"
  proof cases
    case lt
    have i: "nat (if mWrite c - int m < 0 then mWrite c - int m + mParts c else mWrite c - int m) = j - m"
      using lt by (simp add: w)
    have x: "?X ! (j - m) = replicate n 0" using lt j by (simp add: ring_nth)
    have "accumulate_partition c ?X m (replicate n 0) = replicate n 0"
    proof (rule accumulate_zero [OF b])
      show "length (replicate n (0::complex)) = n" by simp
      show "?X ! nat (if mWrite c - int m < 0 then mWrite c - int m + mParts c else mWrite c - int m)
          = replicate n 0"
        unfolding i by (fact x)
    qed
    with lt show ?thesis by simp
  next
    case eq
    have i: "nat (if mWrite c - int m < 0 then mWrite c - int m + mParts c else mWrite c - int m) = 0"
      using eq by (simp add: w)
    have x: "?X ! 0 = replicate n 1" using j by (simp add: ring_nth)
    have "accumulate_partition c ?X m (replicate n 0) = mH c ! m"
    proof (rule accumulate_one [OF b])
      show "length (mH c ! m) = n" using len mP by simp
      show "?X ! nat (if mWrite c - int m < 0 then mWrite c - int m + mParts c else mWrite c - int m)
          = replicate n 1"
        unfolding i by (fact x)
    qed
    with eq show ?thesis by simp
  next
    case gt
    have "int j - int m + int P = int (j + P - m)" using gt mP by simp
    then have i: "nat (if mWrite c - int m < 0 then mWrite c - int m + mParts c else mWrite c - int m)
        = j + P - m"
      using gt by (simp add: w p)
    have x: "?X ! (j + P - m) = replicate n 0" using gt mP by (simp add: ring_nth)
    have "accumulate_partition c ?X m (mH c ! j) = mH c ! j"
    proof (rule accumulate_zero [OF b])
      show "length (mH c ! j) = n" using len j by simp
      show "?X ! nat (if mWrite c - int m < 0 then mWrite c - int m + mParts c else mWrite c - int m)
          = replicate n 0"
        unfolding i by (fact x)
    qed
    with gt show ?thesis by simp
  qed
  with f show ?case by simp
qed

lemma processBlock_step:
  assumes inv: "conv_inv h B P j c" and B: "0 < B" and j: "j < P"
    and blk: "blk = (if j = 0 then unit_impulse B else replicate B 0)"
    and out: "length out = B"
  shows "fst (processBlock c blk out (int B))"
    and "snd (snd (processBlock c blk out (int B))) = take B (ir_tin h B j)"
    and "conv_inv h B P (Suc j) (fst (snd (processBlock c blk out (int B))))"
proof -
  let ?zeros = "replicate (B + 1) (0::complex)"
  let ?ones = "replicate (B + 1) (1::complex)"
  let ?X = "(replicate P ?zeros)[0 := ?ones]"
  from inv have f: "mBlock c = int B" "mFFT c = 2 * int B" "mBins c = int B + 1"
    "mParts c = int P" "mWrite c = int (j mod P)" "mReady c"
    "length (mTimeIn c) = 2 * B" "length (mFreqY c) = B + 1" "mOverlap c = replicate B 0"
    "mH c = map (\<lambda>k. fftw_r2c (2 * B) (ir_tin h B k)) [0..<P]"
    "mX c = (if j = 0 then replicate P ?zeros else ?X)"
    by (simp_all add: conv_inv_def)
  from j have w: "mWrite c = int j" by (simp add: f(5))
  have n: "nat (mBlock c) = B" "nat (mFFT c) = 2 * B" "nat (mBins c) = B + 1" "nat (mParts c) = P"
    "nat (mWrite c) = j"
    by (simp_all add: f(1-4) w)
  define tin where "tin = write_range (memcpy (mTimeIn c) blk B) B (B + B) (\<lambda>i. 0)"
  have tin: "tin = (if j = 0 then unit_impulse (2 * B) else replicate (2 * B) 0)"
    unfolding tin_def blk using f(7) by (simp add: tin_impulse tin_zero)
  have bins: "(2 * B) div 2 + 1 = B + 1" by simp
  have Xw: "fftw_r2c (2 * B) tin = (if j = 0 then ?ones else ?zeros)"
    unfolding tin using B r2c_impulse [of "2 * B"] r2c_zero [of "2 * B"]
    by (simp only: bins split: if_splits) simp
  have X: "(mX c)[j := fftw_r2c (2 * B) tin] = ?X"
  proof (cases "j = 0")
    case True
    then show ?thesis by (simp add: f Xw)
  next
    case False
    then have "0 < j" by simp
    have "(mX c)[j := fftw_r2c (2 * B) tin] = ?X[j := ?zeros]"
      using False by (simp only: f(11) Xw if_False)
    also have "\<dots> = ?X" using \<open>0 < j\<close> j by (rule ring_update_zero)
    finally show ?thesis .
  qed
  have Y0: "write_n (mFreqY c) (B + 1) (\<lambda>b. 0) = ?zeros"
    using f(8) by (intro nth_equalityI) (simp_all add: nth_write_n del: replicate_Suc)
  have len: "\<forall>k<P. length (mH c ! k) = B + 1"
    by (simp add: f)
  have bn: "mBins c = int (B + 1)" by (simp add: f)
  have Y: "fold (accumulate_partition c ?X) [0..<P] ?zeros = fftw_r2c (2 * B) (ir_tin h B j)"
    using accumulate_fold [OF w f(4) bn j order_refl len] j by (simp add: f)
  define tout where "tout = fftw_c2r (2 * B) (fftw_r2c (2 * B) (ir_tin h B j))"
  have tout: "tout = map (\<lambda>n. real (2 * B) * ir_tin h B j ! n) [0..<2 * B]"
    unfolding tout_def by (rule fftw_c2r_r2c)
  have inv2: "real (2 * B) * x * (1 / real_of_int (2 * int B)) = x" for x :: real
    using B by simp
  have out': "write_n out B (\<lambda>i. tout ! i * (1 / real_of_int (mFFT c)) + mOverlap c ! i)
      = take B (ir_tin h B j)"
    using out by (intro nth_equalityI) (simp_all add: nth_write_n tout f inv2)
  have ov: "write_n (mOverlap c) B (\<lambda>i. tout ! (i + B) * (1 / real_of_int (mFFT c)))
      = replicate B 0"
    by (intro nth_equalityI) (simp_all add: nth_write_n tout f nth_ir_tin)
  have w': "(if mWrite c + 1 \<ge> mParts c then 0 else mWrite c + 1) = int (Suc j mod P)"
  proof (cases "Suc j = P")
    case True
    then show ?thesis by (simp add: w f(4))
  next
    case False
    with j have "Suc j < P" by simp
    then show ?thesis by (simp add: w f(4))
  qed
  have r: "processBlock c blk out (int B) =
     (True,
      c\<lparr>mTimeIn := tin, mX := ?X, mFreqY := fftw_r2c (2 * B) (ir_tin h B j), mTimeOut := tout,
        mOverlap := replicate B 0, mWrite := int (Suc j mod P)\<rparr>,
      take B (ir_tin h B j))"
    unfolding processBlock_def Let_def n tin_def [symmetric] X Y0 Y tout_def [symmetric] out' ov w'
    by (simp add: f)
  show "fst (processBlock c blk out (int B))" by (simp add: r)
  show "snd (snd (processBlock c blk out (int B))) = take B (ir_tin h B j)" by (simp add: r)
  have "length tin = 2 * B" by (simp add: tin_def f)
  then show "conv_inv h B P (Suc j) (fst (snd (processBlock c blk out (int B))))"
    unfolding r by (simp add: conv_inv_def f del: upt_Suc replicate_Suc)
qed

lemma feed_blocks:
  assumes "0 < B"
  shows "conv_inv h B P j c \<Longrightarrow> j + n \<le> P \<Longrightarrow>
     feed c (map (\<lambda>i. if i = 0 then unit_impulse B else replicate B 0) [j..<j + n])
       = map (\<lambda>i. (True, take B (ir_tin h B i))) [j..<j + n]"
proof (induction n arbitrary: j c)
  case 0
  then show ?case by simp
next
  case (Suc n)
  let ?blk = "if j = 0 then unit_impulse B else replicate B 0"
  have l: "length ?blk = B" by simp
  from Suc.prems have j: "j < P" by simp
  note st = processBlock_step [OF Suc.prems(1) assms j refl, of "replicate B 0", simplified]
  obtain ok c' out where p: "processBlock c ?blk (replicate B 0) (int B) = (ok, c', out)"
    by (cases "processBlock c ?blk (replicate B 0) (int B)")
  from st p have ok: "ok" and out: "out = take B (ir_tin h B j)" and inv: "conv_inv h B P (Suc j) c'"
    by simp_all
  have u: "[j..<j + Suc n] = j # [Suc j..<Suc j + n]" by (simp add: upt_conv_Cons)
  from Suc.prems have "Suc j + n \<le> P" by simp
  from Suc.IH [OF inv this]
  have IH: "feed c' (map (\<lambda>i. if i = 0 then unit_impulse B else replicate B 0) [Suc j..<Suc j + n])
       = map (\<lambda>i. (True, take B (ir_tin h B i))) [Suc j..<Suc j + n]" .
  let ?f = "\<lambda>i. if i = 0 then unit_impulse B else replicate B 0"
  let ?g = "\<lambda>i. (True, take B (ir_tin h B i))"
  have "feed c (map ?f [j..<j + Suc n]) = feed c (?blk # map ?f [Suc j..<Suc j + n])"
    unfolding u by simp
  also have "\<dots> = (ok, out) # feed c' (map ?f [Suc j..<Suc j + n])"
    unfolding feed.simps l p by simp
  also have "\<dots> = ?g j # map ?g [Suc j..<Suc j + n]"
    by (simp only: IH ok out)
  also have "\<dots> = map ?g [j..<j + Suc n]"
    unfolding u by simp
  finally show ?case .
qed

lemma impulse_blocks:
  assumes "0 < P"
  shows "unit_impulse B # replicate (P - 1) (replicate B 0)
       = map (\<lambda>i. if i = 0 then unit_impulse B else replicate B 0) [0..<0 + P]"
  using assms
  by (intro nth_equalityI) (auto simp: nth_Cons split: nat.splits)

lemma num_blocks_covers:
  assumes "0 < B"
  shows "L \<le> num_blocks L B * B"
proof -
  have "L + B - 1 = (L + B - 1) div B * B + (L + B - 1) mod B" by simp
  moreover have "(L + B - 1) mod B < B" using assms by simp
  ultimately have "L + B - 1 < (L + B - 1) div B * B + B" by linarith
  then show ?thesis using assms by (simp add: num_blocks_def)
qed

lemma ir_block_padded:
  assumes "0 < B" "j < num_blocks (length h) B"
  shows "take B (ir_tin h B j)
       = take B (drop (j * B) (h @ replicate (num_blocks (length h) B * B - length h) 0))"
proof (intro nth_equalityI)
  let ?P = "num_blocks (length h) B"
  from num_blocks_covers [OF assms(1), of "length h"] have c: "length h \<le> ?P * B" .
  from assms(2) have "Suc j \<le> ?P" by simp
  then have "Suc j * B \<le> ?P * B" by (rule mult_le_mono1)
  then have jb: "j * B + B \<le> ?P * B" by (simp add: algebra_simps)
  show "length (take B (ir_tin h B j))
      = length (take B (drop (j * B) (h @ replicate (?P * B - length h) 0)))"
    using c jb by simp
  fix i assume "i < length (take B (ir_tin h B j))"
  then have i: "i < B" by simp
  with jb have b: "j * B + i < ?P * B" by simp
  let ?xs = "h @ replicate (?P * B - length h) 0"
  have lx: "length ?xs = ?P * B" using c by simp
  have "take B (drop (j * B) ?xs) ! i = drop (j * B) ?xs ! i" using i by (rule nth_take)
  also have "\<dots> = ?xs ! (j * B + i)"
  proof (rule nth_drop)
    from jb have "j * B \<le> ?P * B" by linarith
    then show "j * B \<le> length ?xs" unfolding lx .
  qed
  also have "\<dots> = (if j * B + i < length h then h ! (j * B + i) else 0)"
    using b by (simp add: nth_append)
  finally have r: "take B (drop (j * B) ?xs) ! i
      = (if j * B + i < length h then h ! (j * B + i) else 0)" .
  have "take B (ir_tin h B j) ! i = ir_tin h B j ! i" using i by (rule nth_take)
  also have "\<dots> = (if j * B + i < length h then h ! (j * B + i) else 0)"
    using i by (simp add: nth_ir_tin)
  finally show "take B (ir_tin h B j) ! i = take B (drop (j * B) ?xs) ! i"
    unfolding r .
qed

text \<open>
  Claim C1. A convolver is initialised from a non-empty impulse response \<open>h\<close> of length
  \<open>L\<close> with block size \<open>B\<close> (a positive \<open>int\<close> whose double is an \<open>int\<close> too; \<open>L\<close>
  below \<open>2\<^sup>3\<^sup>1\<close>, so that the number of partitions is an \<open>int\<close>), the transform library's
  allocations succeeding. Then \<open>init\<close> returns true, and feeding the unit impulse block
  followed by zero blocks, \<open>\<lceil>L / B\<rceil>\<close> blocks in all, makes every \<open>processBlock\<close> call return
  true and output block \<open>j\<close> equal to the samples \<open>[j B, j B + B)\<close> of \<open>h\<close> padded with
  zeros to \<open>\<lceil>L / B\<rceil> B\<close> samples. The samples are real numbers here: the rounding of
  \<open>float\<close> arithmetic is not followed.
\<close>

theorem convolver_round_trip:
  assumes "0 < B" "B < 2 ^ 30" "h \<noteq> []" "length h < 2 ^ 31"
  shows "fst (conv_init True h (int B))
     \<and> feed (snd (conv_init True h (int B)))
         (unit_impulse B # replicate (num_blocks (length h) B - 1) (replicate B 0))
       = map (\<lambda>j. (True, take B (drop (j * B)
                      (h @ replicate (num_blocks (length h) B * B - length h) 0))))
           [0..<num_blocks (length h) B]"
proof -
  let ?P = "num_blocks (length h) B"
  let ?c = "snd (conv_init True h (int B))"
  note i = conv_init_inv [OF assms(1,3,4), folded num_blocks_def]
  from parts_count(2) [OF assms(1,3,4)] have P: "0 < ?P" by (simp add: num_blocks_def)
  have "feed ?c (unit_impulse B # replicate (?P - 1) (replicate B 0))
      = map (\<lambda>i. (True, take B (ir_tin h B i))) [0..<0 + ?P]"
    unfolding impulse_blocks [OF P] using assms(1) i(2) by (rule feed_blocks) simp
  also have "\<dots> = map (\<lambda>j. (True, take B (drop (j * B) (h @ replicate (?P * B - length h) 0))))
           [0..<?P]"
    using assms(1) by (simp add: ir_block_padded del: upt_Suc)
  finally show ?thesis using i(1) by simp
qed

text \<open>
  Witness for C1: the impulse response \<open>[0.25, 0.5, -0.25, 0.125]\<close> with block size 4 is
  one partition; the unit impulse block comes out as the impulse response itself.
\<close>

theorem convolver_round_trip_witness:
  "(0::nat) < 4 \<and> (4::nat) < 2 ^ 30 \<and> [0.25, 0.5, - 0.25, 0.125 :: real] \<noteq> []
   \<and> length [0.25, 0.5, - 0.25, 0.125 :: real] < 2 ^ 31
   \<and> fst (conv_init True [0.25, 0.5, - 0.25, 0.125] 4)
   \<and> feed (snd (conv_init True [0.25, 0.5, - 0.25, 0.125] 4)) [unit_impulse 4]
       = [(True, [0.25, 0.5, - 0.25, 0.125])]"
proof -
  have a: "(0::nat) < 4" "(4::nat) < 2 ^ 30" "[0.25, 0.5, - 0.25, 0.125 :: real] \<noteq> []"
    "length [0.25, 0.5, - 0.25, 0.125 :: real] < 2 ^ 31"
    by simp_all
  from convolver_round_trip [OF a] a show ?thesis
    by (simp add: num_blocks_def)
qed

end
